theory Spec2Isabelle
  imports Complex_Main
begin

unbundle bit_operations_syntax

section \<open>Numbers and vectors\<close>

text \<open>
  The program is src/rotatingCaliper.ts. Its numbers are JavaScript doubles. This
  development idealises them: a coordinate is a real number and \<open>+\<close>, \<open>-\<close>, \<open>*\<close> are
  exact (no rounding, no overflow, no signed zero). A division is the one place where
  the exact operation itself leaves the finite numbers, so its result is a \<open>jsnum\<close>:
  \<open>0 / 0\<close> is \<open>NaN\<close> and \<open>x / 0\<close> an infinity, as in JavaScript. The two quotients of
  the program (\<open>area\<close> and \<open>sinThetaSqr\<close>) are only stored and compared afterwards,
  so \<open>jsnum\<close> needs comparison and subtraction only.
\<close>

datatype jsnum = Fin real | PosInf | NegInf | NaN

definition jsdiv :: "real \<Rightarrow> real \<Rightarrow> jsnum" where
  "jsdiv a b =
     (if b \<noteq> 0 then Fin (a / b)
      else if a = 0 then NaN
      else if 0 < a then PosInf else NegInf)"

text \<open>\<open>a === b\<close> on numbers: \<open>NaN\<close> equals nothing.\<close>

fun js_strict_eq :: "jsnum \<Rightarrow> jsnum \<Rightarrow> bool" where
  "js_strict_eq NaN _ = False"
| "js_strict_eq _ NaN = False"
| "js_strict_eq a b = (a = b)"

text \<open>\<open>a <= b\<close> on numbers: false as soon as one side is \<open>NaN\<close>.\<close>

fun js_le :: "jsnum \<Rightarrow> jsnum \<Rightarrow> bool" where
  "js_le NaN _ = False"
| "js_le _ NaN = False"
| "js_le NegInf _ = True"
| "js_le _ PosInf = True"
| "js_le (Fin a) (Fin b) = (a \<le> b)"
| "js_le _ _ = False"

text \<open>\<open>a - b\<close> on numbers.\<close>

fun js_sub :: "jsnum \<Rightarrow> jsnum \<Rightarrow> jsnum" where
  "js_sub NaN _ = NaN"
| "js_sub _ NaN = NaN"
| "js_sub (Fin a) (Fin b) = Fin (a - b)"
| "js_sub PosInf PosInf = NaN"
| "js_sub NegInf NegInf = NaN"
| "js_sub PosInf _ = PosInf"
| "js_sub NegInf _ = NegInf"
| "js_sub (Fin a) PosInf = NegInf"
| "js_sub (Fin a) NegInf = PosInf"

text \<open>
  \<open>Vector2\<close> of three.js, a pair of coordinates \<open>(x, y)\<close>. The class is a library of
  its own and not part of the repository; the operations below are the ones the
  program calls, with the result each computes. Where three.js changes the receiver
  in place, the program either works on a fresh \<open>clone()\<close> (so the value is all that
  matters) or the write is modelled at the call (see \<open>computeAngles\<close>).
\<close>

type_synonym vec = "real \<times> real"

definition sub_v :: "vec \<Rightarrow> vec \<Rightarrow> vec" where
  "sub_v a b = (fst a - fst b, snd a - snd b)"

definition add_v :: "vec \<Rightarrow> vec \<Rightarrow> vec" where
  "add_v a b = (fst a + fst b, snd a + snd b)"

definition dot :: "vec \<Rightarrow> vec \<Rightarrow> real" where
  "dot a b = fst a * fst b + snd a * snd b"

definition negate :: "vec \<Rightarrow> vec" where
  "negate a = (- fst a, - snd a)"

definition multiplyScalar :: "vec \<Rightarrow> real \<Rightarrow> vec" where
  "multiplyScalar a s = (fst a * s, snd a * s)"

definition lengthSq :: "vec \<Rightarrow> real" where
  "lengthSq a = fst a * fst a + snd a * snd a"

definition length_v :: "vec \<Rightarrow> real" where
  "length_v a = sqrt (lengthSq a)"

text \<open>\<open>normalize()\<close> is \<open>divideScalar(length() || 1)\<close>: the zero vector stays as it is.\<close>

definition normalize :: "vec \<Rightarrow> vec" where
  "normalize a = multiplyScalar a (1 / (if length_v a = 0 then 1 else length_v a))"

text \<open>The vector turned by +90 degrees: \<open>(-y, x)\<close>.\<close>

definition perp :: "vec \<Rightarrow> vec" where
  "perp a = (- snd a, fst a)"

text \<open>
  \<open>Math.atan2(y, x)\<close> on real numbers (the signed zeros of the doubles, which decide
  between \<open>pi\<close> and \<open>-pi\<close> on the negative x axis, are not modelled).
\<close>

definition atan2 :: "real \<Rightarrow> real \<Rightarrow> real" where
  "atan2 y x =
     (if 0 < x then arctan (y / x)
      else if x < 0 then (if 0 \<le> y then arctan (y / x) + pi else arctan (y / x) - pi)
      else if 0 < y then pi / 2
      else if y < 0 then - (pi / 2)
      else 0)"

section \<open>Arrays, errors and the objects of the program\<close>

text \<open>
  Reading a property of \<open>undefined\<close> throws a \<open>TypeError\<close>; it is the only exception
  the program can raise. \<open>Undefined_slot\<close> is not a JavaScript exception: it marks a
  read of \<open>box.index\<close> outside its four slots in \<open>updateSupport\<close>, where JavaScript
  would go on computing with \<open>undefined\<close> and \<open>NaN\<close> indices that this model does
  not represent. No run of \<open>rotatingCaliper\<close> gets there (\<open>rotatingCaliper_returns\<close>).
\<close>

datatype error = TypeError | Undefined_slot

text \<open>\<open>xs[i]\<close>: \<open>None\<close> is JavaScript's \<open>undefined\<close>.\<close>

definition js_nth :: "'a list \<Rightarrow> int \<Rightarrow> 'a option" where
  "js_nth xs i = (if 0 \<le> i \<and> i < int (length xs) then Some (xs ! nat i) else None)"

text \<open>\<open>xs[i] = v\<close>: a write past the end extends the array, leaving holes.\<close>

definition store :: "'a option list \<Rightarrow> nat \<Rightarrow> 'a \<Rightarrow> 'a option list" where
  "store xs i v =
     (if i < length xs then xs[i := Some v]
      else xs @ replicate (i - length xs) None @ [Some v])"

definition ebind :: "error + 'a \<Rightarrow> ('a \<Rightarrow> error + 'b) \<Rightarrow> error + 'b" where
  "ebind m f = (case m of Inl e \<Rightarrow> Inl e | Inr x \<Rightarrow> f x)"

text \<open>
  A value that is used as an object (a method call on it, a property read from it, an
  argument whose \<open>x\<close> is read): \<open>undefined\<close> throws.
\<close>

definition defined :: "'a option \<Rightarrow> error + 'a" where
  "defined x = (case x of None \<Rightarrow> Inl TypeError | Some v \<Rightarrow> Inr v)"

text \<open>A slot of \<open>box.index\<close> that is used as a number.\<close>

definition slot :: "'a option \<Rightarrow> error + 'a" where
  "slot x = (case x of None \<Rightarrow> Inl Undefined_slot | Some v \<Rightarrow> Inr v)"

text \<open>
  The objects that outlive one call: the caller's array of \<open>[x, y]\<close> pairs that the
  argument \<open>hull\<close> refers to, and the two module-level vectors \<open>perpE\<close> (line 70) and
  \<open>u1\<close> (line 112), created once when the module is loaded.
\<close>

record heap =
  caller_hull :: "(real \<times> real) list"
  perpE :: vec
  u1 :: vec

text \<open>
  A slot of \<open>box.u\<close> holds a reference to a vector. After \<open>updateSupport\<close> the slot
  \<open>box.u[1]\<close> holds the module-level object \<open>u1\<close> itself (line 160: \<open>u1.set\<close> returns
  \<open>this\<close>); every other vector of a box is an object of its own.
\<close>

datatype vecref = Fresh vec | Module_u1

definition deref :: "heap \<Rightarrow> vecref \<Rightarrow> vec" where
  "deref h r = (case r of Fresh v \<Rightarrow> v | Module_u1 \<Rightarrow> u1 h)"

record Box =
  u :: "vecref list"
  index :: "int list"
  sqrLenU0 :: real
  area :: jsnum

record AngleInfo =
  sinThetaSqr :: jsnum
  indexOfBox :: nat

text \<open>\<open>cloneDeep(box)\<close>: a copy that shares no object with the original.\<close>

definition cloneDeep :: "heap \<Rightarrow> Box \<Rightarrow> Box" where
  "cloneDeep h b = b\<lparr>u := map (\<lambda>r. Fresh (deref h r)) (u b)\<rparr>"

text \<open>
  What \<open>computeAngles\<close> and \<open>updateSupport\<close> can reach and change: the heap, the
  working box, the buffer \<open>angleInfo\<close> (\<open>new Array(4)\<close>: four holes at first, kept from
  one iteration to the next), the counter \<open>angleNum.value\<close> and the array \<open>visited\<close>.
  \<open>visited\<close> is read for its truth value only, so it is the function from an index to
  that truth value (\<open>undefined\<close> outside the array is falsy, and a write is a write).
\<close>

record state =
  globals :: heap
  box :: Box
  angleInfo :: "AngleInfo option list"
  angleNum :: nat
  visited :: "int \<Rightarrow> bool"

section \<open>smallestBox\<close>

text \<open>
  The three \<open>if\<close> statements of the \<open>forEach\<close> (lines 192 to 195, 197 to 200 and 202 to
  205), on the pair of \<open>box.index\<close> and \<open>support\<close>, for the vertex number \<open>i\<close> and its
  projection \<open>v\<close>.
\<close>

definition support1 :: "int \<Rightarrow> vec \<Rightarrow> int list \<times> vec list \<Rightarrow> int list \<times> vec list" where
  "support1 i v acc =
     (if fst v > fst (snd acc ! 1) \<or> (fst v = fst (snd acc ! 1) \<and> snd v > snd (snd acc ! 1))
      then ((fst acc)[1 := i], (snd acc)[1 := v]) else acc)"

definition support2 :: "int \<Rightarrow> vec \<Rightarrow> int list \<times> vec list \<Rightarrow> int list \<times> vec list" where
  "support2 i v acc =
     (if snd v > snd (snd acc ! 2) \<or> (snd v = snd (snd acc ! 2) \<and> fst v < fst (snd acc ! 2))
      then ((fst acc)[2 := i], (snd acc)[2 := v]) else acc)"

definition support3 :: "int \<Rightarrow> vec \<Rightarrow> int list \<times> vec list \<Rightarrow> int list \<times> vec list" where
  "support3 i v acc =
     (if fst v < fst (snd acc ! 3) \<or> (fst v = fst (snd acc ! 3) \<and> snd v < snd (snd acc ! 3))
      then ((fst acc)[3 := i], (snd acc)[3 := v]) else acc)"

text \<open>One round of the \<open>forEach\<close> of lines 188 to 206.\<close>

definition scan_vertex ::
  "vec \<Rightarrow> vec \<Rightarrow> vec \<Rightarrow> int list \<times> vec list \<Rightarrow> nat \<times> vec \<Rightarrow> int list \<times> vec list" where
  "scan_vertex a0 a1 origin acc iv =
     (let i = int (fst iv);
          diff = sub_v (snd iv) origin;
          v = (dot a0 diff, dot a1 diff)
      in support3 i v (support2 i v (support1 i v acc)))"

definition scan_all :: "vec \<Rightarrow> vec \<Rightarrow> vec \<Rightarrow> int \<Rightarrow> vec list \<Rightarrow> int list \<times> vec list" where
  "scan_all a0 a1 origin i1 vertices =
     foldl (scan_vertex a0 a1 origin)
       ([i1, i1, i1, i1], [(0, 0), (0, 0), (0, 0), (0, 0)])
       (enumerate 0 vertices)"

definition smallestBox :: "int \<Rightarrow> int \<Rightarrow> vec list \<Rightarrow> error + Box" where
  "smallestBox i0 i1 vertices =
     ebind (defined (js_nth vertices i1)) (\<lambda>p1.
     ebind (defined (js_nth vertices i0)) (\<lambda>p0.
       (let a0 = sub_v p1 p0;
            a1 = (- snd a0, fst a0);
            sq = dot a0 a0;
            acc = scan_all a0 a1 p1 i1 vertices;
            support = snd acc;
            scaledWidth = fst (support ! 1) - fst (support ! 3);
            scaledHeight = snd (support ! 2)
        in Inr \<lparr>u = [Fresh a0, Fresh a1], index = fst acc, sqrLenU0 = sq,
                area = jsdiv (scaledWidth * scaledHeight) sq\<rparr>)))"

section \<open>computeAngles\<close>

text \<open>
  \<open>box.u[k].negate()\<close> (line 75) negates the vector in place and returns it: the
  box's own vector, or the module's \<open>u1\<close> when the slot refers to it.
\<close>

definition negate_ref :: "nat \<Rightarrow> state \<Rightarrow> error + state" where
  "negate_ref k s =
     (case js_nth (u (box s)) (int k) of
        None \<Rightarrow> Inl TypeError
      | Some (Fresh v) \<Rightarrow> Inr (s\<lparr>box := (box s)\<lparr>u := (u (box s))[k := Fresh (negate v)]\<rparr>\<rparr>)
      | Some Module_u1 \<Rightarrow> Inr (s\<lparr>globals := (globals s)\<lparr>u1 := negate (u1 (globals s))\<rparr>\<rparr>))"

text \<open>
  Lines 81 to 88, once the direction \<open>d\<close> and the two ends \<open>p0\<close>, \<open>p1\<close> of the hull
  edge are known: \<open>perpE\<close> is overwritten and the candidate is written to the buffer.
\<close>

definition record_angle :: "state \<Rightarrow> nat \<Rightarrow> vec \<Rightarrow> vec \<Rightarrow> vec \<Rightarrow> state" where
  "record_angle s k0 d p1 p0 =
     (let e = sub_v p1 p0;
          pe = (- snd e, fst e);
          s2 = s\<lparr>globals := (globals s)\<lparr>perpE := pe\<rparr>\<rparr>;
          dp = dot pe d;
          dsqrslen = dot d d;
          esqrlen = dot e e;
          sinTheta = jsdiv (dp * dp) (esqrlen * dsqrslen)
      in s2\<lparr>angleInfo := store (angleInfo s2) (angleNum s2)
                                \<lparr>sinThetaSqr = sinTheta, indexOfBox = k0\<rparr>,
             angleNum := angleNum s2 + 1\<rparr>)"

text \<open>Lines 75 to 88: the body of the \<open>if\<close>, for the side \<open>k0\<close>.\<close>

definition candidate :: "vec list \<Rightarrow> state \<Rightarrow> nat \<Rightarrow> error + state" where
  "candidate vertices s k0 =
     ebind (if k0 AND 2 \<noteq> 0 then negate_ref (k0 AND 1) s else Inr s) (\<lambda>s1.
     ebind (defined (js_nth (u (box s1)) (int (k0 AND 1)))) (\<lambda>r.
     ebind (defined (js_nth (index (box s1)) (int k0))) (\<lambda>j0.
     ebind (defined (js_nth vertices (if j0 + 1 = int (length vertices) then 0 else j0 + 1)))
       (\<lambda>p1.
     ebind (defined (js_nth vertices j0)) (\<lambda>p0.
       Inr (record_angle s1 k0 (deref (globals s1) r) p1 p0))))))"

text \<open>The body of the loop of lines 73 to 90 for one pair \<open>(k0, k1)\<close>.\<close>

definition angle_side :: "vec list \<Rightarrow> state \<Rightarrow> nat \<times> nat \<Rightarrow> error + state" where
  "angle_side vertices s kk =
     (if js_nth (index (box s)) (int (fst kk)) \<noteq> js_nth (index (box s)) (int (snd kk))
      then candidate vertices s (fst kk)
      else Inr s)"

fun run_sides :: "vec list \<Rightarrow> (nat \<times> nat) list \<Rightarrow> state \<Rightarrow> error + state" where
  "run_sides vertices [] s = Inr s"
| "run_sides vertices (kk # kks) s = ebind (angle_side vertices s kk) (run_sides vertices kks)"

definition computeAngles :: "vec list \<Rightarrow> state \<Rightarrow> error + bool \<times> state" where
  "computeAngles vertices s =
     ebind (run_sides vertices [(3, 0), (0, 1), (1, 2), (2, 3)] (s\<lparr>angleNum := 0\<rparr>))
       (\<lambda>s'. Inr (0 < angleNum s', s'))"

section \<open>sortAngles\<close>

text \<open>
  The comparator of lines 99 to 107, on the two entries of \<open>angleInfo\<close> it reads.
\<close>

definition compare_angles :: "nat \<Rightarrow> AngleInfo \<Rightarrow> AngleInfo \<Rightarrow> jsnum" where
  "compare_angles n a b =
     (if n < 4 \<and> js_strict_eq (sinThetaSqr a) (sinThetaSqr b)
      then Fin (real_of_int (int (indexOfBox b) - int (indexOfBox a)))
      else js_sub (sinThetaSqr a) (sinThetaSqr b))"

text \<open>A comparator's result is "a after b" when it is a number above zero.\<close>

fun js_positive :: "jsnum \<Rightarrow> bool" where
  "js_positive (Fin r) = (0 < r)"
| "js_positive PosInf = True"
| "js_positive _ = False"

text \<open>
  \<open>Array.prototype.sort\<close> is stable. With a comparator that is a consistent order
  (here: on finite \<open>sinThetaSqr\<close>) every stable sort gives the same array, the one an
  insertion sort gives: each element goes before the first one it is strictly below.
\<close>

fun insert_by :: "('a \<Rightarrow> 'a \<Rightarrow> jsnum) \<Rightarrow> 'a \<Rightarrow> 'a list \<Rightarrow> 'a list" where
  "insert_by c x [] = [x]"
| "insert_by c x (y # ys) = (if js_positive (c y x) then x # y # ys else y # insert_by c x ys)"

definition js_sort :: "('a \<Rightarrow> 'a \<Rightarrow> jsnum) \<Rightarrow> 'a list \<Rightarrow> 'a list" where
  "js_sort c xs = foldl (\<lambda>acc x. insert_by c x acc) [] xs"

text \<open>
  \<open>angleInfo.map((a, index) => index)\<close> skips the holes of the buffer: the slots that
  hold an entry, each with the entry the comparator will read.
\<close>

definition filled :: "AngleInfo option list \<Rightarrow> (nat \<times> AngleInfo) list" where
  "filled ai =
     concat (map (\<lambda>i. case ai ! i of None \<Rightarrow> [] | Some a \<Rightarrow> [(i, a)]) [0..<length ai])"

text \<open>
  The result is the array \<open>sort\<close> without its trailing holes: reading it past the end
  gives \<open>undefined\<close> either way.
\<close>

definition sortAngles :: "AngleInfo option list \<Rightarrow> nat \<Rightarrow> nat list" where
  "sortAngles ai n =
     (if n = 0 then [0, 1, 2, 3]
      else map fst (js_sort (\<lambda>a b. compare_angles n (snd a) (snd b)) (filled ai)))"

section \<open>updateSupport\<close>

text \<open>\<open>angleInfo[sort[k]]\<close>.\<close>

definition angle_at :: "AngleInfo option list \<Rightarrow> nat list \<Rightarrow> nat \<Rightarrow> AngleInfo option" where
  "angle_at ai srt k =
     (case js_nth srt (int k) of None \<Rightarrow> None
      | Some j \<Rightarrow> (case js_nth ai (int j) of Some (Some a) \<Rightarrow> Some a | _ \<Rightarrow> None))"

text \<open>
  The loop of lines 125 to 134, from \<open>k\<close> on: the index array and the counter
  \<open>parallel\<close>.
\<close>

function advance ::
  "AngleInfo option list \<Rightarrow> nat list \<Rightarrow> nat \<Rightarrow> AngleInfo \<Rightarrow> nat \<Rightarrow> nat \<Rightarrow> int list \<times> nat
     \<Rightarrow> error + int list \<times> nat" where
  "advance ai srt len minAngle n k acc =
     (if k < n then
        (case angle_at ai srt k of
           None \<Rightarrow> Inl TypeError
         | Some curAngle \<Rightarrow>
             if js_strict_eq (sinThetaSqr curAngle) (sinThetaSqr minAngle) then
               (case js_nth (fst acc) (int (indexOfBox curAngle)) of
                  None \<Rightarrow> Inl Undefined_slot
                | Some j \<Rightarrow>
                    advance ai srt len minAngle n (k + 1)
                      ((fst acc)[indexOfBox curAngle := (if j + 1 = int len then 0 else j + 1)],
                       snd acc + 1))
             else advance ai srt len minAngle n (k + 1) acc)
      else Inr acc)"
  by pat_completeness auto
termination
  by (relation "measure (\<lambda>(ai, srt, len, minAngle, n, k, acc). n - k)") auto

text \<open>The loop of lines 141 to 143.\<close>

fun mark_visited ::
  "AngleInfo option list \<Rightarrow> nat list \<Rightarrow> int list \<Rightarrow> nat list \<Rightarrow> (int \<Rightarrow> bool)
     \<Rightarrow> error + (int \<Rightarrow> bool)" where
  "mark_visited ai srt idx [] vis = Inr vis"
| "mark_visited ai srt idx (k # ks) vis =
     (case angle_at ai srt k of
        None \<Rightarrow> Inl TypeError
      | Some a \<Rightarrow>
          (case js_nth idx (int (indexOfBox a)) of
             None \<Rightarrow> Inl Undefined_slot
           | Some j \<Rightarrow> mark_visited ai srt idx ks (vis(j := True))))"

text \<open>
  The loop of lines 146 to 149. An \<open>undefined\<close> entry of \<open>nextIndex\<close> ends in a
  \<open>TypeError\<close> at lines 153 to 167, which index \<open>vertices\<close> with every entry and call a
  method on what they find.
\<close>

fun cycle_index :: "int list \<Rightarrow> nat \<Rightarrow> nat list \<Rightarrow> error + int list" where
  "cycle_index idx m [] = Inr []"
| "cycle_index idx m (k # ks) =
     (case js_nth idx (int ((m + k) mod 4)) of None \<Rightarrow> Inl TypeError
      | Some j \<Rightarrow> (case cycle_index idx m ks of Inl e \<Rightarrow> Inl e | Inr js \<Rightarrow> Inr (j # js)))"

text \<open>
  Lines 141 to 168, once the vertices they read are known: \<open>visited\<close> and the cycled
  index array are stored, the axes are rebuilt on the edge \<open>p0 \<rightarrow> p1\<close> that ends in the
  new bottom support (\<open>box.u[1]\<close> becomes the module's \<open>u1\<close>), and the area is computed
  from the supports \<open>q1\<close>, \<open>q2\<close>, \<open>q3\<close> of the other three sides.
\<close>

definition rebase ::
  "state \<Rightarrow> (int \<Rightarrow> bool) \<Rightarrow> int list \<Rightarrow> vec \<Rightarrow> vec \<Rightarrow> vec \<Rightarrow> vec \<Rightarrow> vec \<Rightarrow> state" where
  "rebase s vis nextIndex p1 p0 q1 q2 q3 =
     (let a0 = sub_v p1 p0;
          a1 = (- snd a0, fst a0);
          sq = lengthSq a0;
          diff0 = sub_v q1 q3;
          diff1 = sub_v q2 p1
      in s\<lparr>globals := (globals s)\<lparr>u1 := a1\<rparr>,
            visited := vis,
            box := \<lparr>u = [Fresh a0, Module_u1] @ drop 2 (u (box s)),
                    index = nextIndex, sqrLenU0 = sq,
                    area = jsdiv (dot a0 diff0 * dot a1 diff1) sq\<rparr>\<rparr>)"

text \<open>Lines 135 to 169, after the loop of step 1 has left \<open>idx\<close> and \<open>parallel\<close>.\<close>

definition finish_update ::
  "nat list \<Rightarrow> vec list \<Rightarrow> state \<Rightarrow> AngleInfo \<Rightarrow> int list \<Rightarrow> nat \<Rightarrow> error + bool \<times> state" where
  "finish_update srt vertices s minAngle idx parallel =
     ebind (slot (js_nth idx (int (indexOfBox minAngle)))) (\<lambda>bottom.
       if visited s bottom then Inr (False, s\<lparr>box := (box s)\<lparr>index := idx\<rparr>\<rparr>)
       else
         ebind (mark_visited (angleInfo s) srt idx [0..<parallel] (visited s)) (\<lambda>vis.
         ebind (cycle_index idx (indexOfBox minAngle) [0, 1, 2, 3]) (\<lambda>nextIndex.
         ebind (defined (js_nth nextIndex 0)) (\<lambda>j1.
         ebind (defined (js_nth vertices j1)) (\<lambda>p1.
         ebind (defined (js_nth vertices (if j1 - 1 < 0 then int (length vertices) - 1 else j1 - 1)))
           (\<lambda>p0.
         ebind (defined (js_nth nextIndex 1)) (\<lambda>i1.
         ebind (defined (js_nth vertices i1)) (\<lambda>q1.
         ebind (defined (js_nth nextIndex 3)) (\<lambda>i3.
         ebind (defined (js_nth vertices i3)) (\<lambda>q3.
         ebind (defined (js_nth nextIndex 2)) (\<lambda>i2.
         ebind (defined (js_nth vertices i2)) (\<lambda>q2.
           Inr (True,
                rebase (s\<lparr>box := (box s)\<lparr>index := idx\<rparr>\<rparr>) vis nextIndex p1 p0 q1 q2 q3)))))))))))))"

definition updateSupport :: "nat list \<Rightarrow> vec list \<Rightarrow> state \<Rightarrow> error + bool \<times> state" where
  "updateSupport srt vertices s =
     ebind (defined (angle_at (angleInfo s) srt 0)) (\<lambda>minAngle.
     ebind (advance (angleInfo s) srt (length vertices) minAngle (angleNum s) 0 (index (box s), 0))
       (\<lambda>acc. finish_update srt vertices s minAngle (fst acc) (snd acc)))"

section \<open>rotatingCaliper\<close>

record rect =
  width :: real
  height :: real
  center :: "real \<times> real"
  angle :: real

text \<open>
  The loop of lines 31 to 42, with the number of rounds still allowed: the working
  state and \<open>minBox\<close>.
\<close>

fun caliper_loop :: "nat \<Rightarrow> vec list \<Rightarrow> state \<Rightarrow> Box \<Rightarrow> error + state \<times> Box" where
  "caliper_loop 0 vertices s mb = Inr (s, mb)"
| "caliper_loop (Suc rounds) vertices s mb =
     (case computeAngles vertices s of Inl e \<Rightarrow> Inl e
      | Inr (go, s1) \<Rightarrow>
          if \<not> go then Inr (s1, mb)
          else
            (case updateSupport (sortAngles (angleInfo s1) (angleNum s1)) vertices s1 of
               Inl e \<Rightarrow> Inl e
             | Inr (go2, s2) \<Rightarrow>
                 if \<not> go2 then Inr (s2, mb)
                 else caliper_loop rounds vertices s2
                        (if js_le (area (box s2)) (area mb)
                         then cloneDeep (globals s2) (box s2) else mb)))"

text \<open>Lines 21 to 30: the vertices, \<open>visited\<close>, the first box and its copy.\<close>

definition initial :: "heap \<Rightarrow> error + vec list \<times> state \<times> Box" where
  "initial h =
     (let vertices = map (\<lambda>point. (fst point, snd point)) (caller_hull h) in
      ebind (smallestBox (int (length vertices) - 1) 0 vertices) (\<lambda>mb.
      ebind (slot (js_nth (index mb) 0)) (\<lambda>j.
        Inr (vertices,
             \<lparr>globals = h, box = cloneDeep h mb, angleInfo = [None, None, None, None],
              angleNum = 0, visited = (\<lambda>_. False)(j := True)\<rparr>,
             mb))))"

text \<open>
  Lines 43 to 60, once the axes \<open>a0\<close>, \<open>a1\<close> of the best box and the vertices they read
  are known.
\<close>

definition rect_of :: "vec \<Rightarrow> vec \<Rightarrow> vec \<Rightarrow> vec \<Rightarrow> vec \<Rightarrow> vec \<Rightarrow> vec \<Rightarrow> rect" where
  "rect_of a0 a1 lastSupport origin q1 q2 q0 =
     (let normalU0 = normalize a0;
          normalU1 = normalize a1;
          maxV = multiplyScalar normalU0 (dot (sub_v lastSupport origin) normalU0);
          rectVertice = add_v maxV origin;
          diff0 = sub_v q1 lastSupport;
          diff1 = sub_v q2 q0;
          w = \<bar>dot normalU0 diff0\<bar>;
          ht = \<bar>dot normalU1 diff1\<bar>;
          vw = multiplyScalar normalU0 (w * 0.5);
          vh = multiplyScalar normalU1 (ht * 0.5)
      in \<lparr>width = w, height = ht,
          center = add_v (add_v rectVertice vw) vh,
          angle = atan2 (snd a0) (fst a0)\<rparr>)"

text \<open>Lines 43 to 67: the rectangle of a box.\<close>

definition extract_rect :: "heap \<Rightarrow> vec list \<Rightarrow> Box \<Rightarrow> error + rect" where
  "extract_rect h vertices mb =
     ebind (defined (js_nth (u mb) 0)) (\<lambda>r0.
     ebind (defined (js_nth (u mb) 1)) (\<lambda>r1.
     ebind (defined (js_nth (index mb) 3)) (\<lambda>i3.
     ebind (defined (js_nth vertices i3)) (\<lambda>lastSupport.
     ebind (defined (js_nth (index mb) 0)) (\<lambda>i0.
     ebind (defined (js_nth vertices (if i0 - 1 = - 1 then int (length vertices) - 1 else i0 - 1)))
       (\<lambda>origin.
     ebind (defined (js_nth (index mb) 1)) (\<lambda>i1.
     ebind (defined (js_nth vertices i1)) (\<lambda>q1.
     ebind (defined (js_nth (index mb) 2)) (\<lambda>i2.
     ebind (defined (js_nth vertices i2)) (\<lambda>q2.
     ebind (defined (js_nth vertices i0)) (\<lambda>q0.
       Inr (rect_of (deref h r0) (deref h r1) lastSupport origin q1 q2 q0))))))))))))"

definition rotatingCaliper :: "heap \<Rightarrow> error + heap \<times> rect" where
  "rotatingCaliper h =
     ebind (initial h) (\<lambda>(vertices, s0, mb0).
     ebind (caliper_loop (length vertices) vertices s0 mb0) (\<lambda>(s, mb).
     ebind (extract_rect (globals s) vertices mb) (\<lambda>r.
     Inr (globals s, r))))"

section \<open>Predicates of the properties\<close>

text \<open>
  The shape every box of a run has: two axis slots, four support indices, each the
  index of a vertex; and the shape of the angle buffer: four slots, every entry naming
  one of the four sides.
\<close>

definition wf_index :: "nat \<Rightarrow> int list \<Rightarrow> bool" where
  "wf_index n idx \<longleftrightarrow> length idx = 4 \<and> (\<forall>j\<in>set idx. 0 \<le> j \<and> j < int n)"

definition wf_box :: "nat \<Rightarrow> Box \<Rightarrow> bool" where
  "wf_box n b \<longleftrightarrow> length (u b) = 2 \<and> wf_index n (index b)"

definition wf_buffer :: "AngleInfo option list \<Rightarrow> bool" where
  "wf_buffer ai \<longleftrightarrow> length ai = 4 \<and> (\<forall>a. Some a \<in> set ai \<longrightarrow> indexOfBox a < 4)"

definition wf_state :: "nat \<Rightarrow> state \<Rightarrow> bool" where
  "wf_state n s \<longleftrightarrow> wf_box n (box s) \<and> wf_buffer (angleInfo s)"

text \<open>The first \<open>angleNum\<close> slots of the buffer hold an entry.\<close>

definition filled_prefix :: "AngleInfo option list \<Rightarrow> nat \<Rightarrow> bool" where
  "filled_prefix ai n \<longleftrightarrow> (\<forall>k<n. \<exists>a. ai ! k = Some a)"

text \<open>
  The area of a box computed again from its index array and its axes, by the formula
  of lines 164 to 168; \<open>None\<close> when a slot or a vertex it needs does not exist.
\<close>

definition recomputed_area :: "heap \<Rightarrow> vec list \<Rightarrow> Box \<Rightarrow> jsnum option" where
  "recomputed_area h vertices b =
     Option.bind (js_nth (u b) 0) (\<lambda>r0.
     Option.bind (js_nth (u b) 1) (\<lambda>r1.
     Option.bind (Option.bind (js_nth (index b) 0) (js_nth vertices)) (\<lambda>q0.
     Option.bind (Option.bind (js_nth (index b) 1) (js_nth vertices)) (\<lambda>q1.
     Option.bind (Option.bind (js_nth (index b) 2) (js_nth vertices)) (\<lambda>q2.
     Option.bind (Option.bind (js_nth (index b) 3) (js_nth vertices)) (\<lambda>q3.
       Some (jsdiv (dot (deref h r0) (sub_v q1 q3) * dot (deref h r1) (sub_v q2 q0))
               (sqrLenU0 b))))))))"

text \<open>
  The invariant of the caliper box: \<open>u[1]\<close> is \<open>u[0]\<close> turned by +90 degrees, and
  \<open>area\<close> is the area of the current index array and axes.
\<close>

definition caliper_invariant :: "heap \<Rightarrow> vec list \<Rightarrow> Box \<Rightarrow> bool" where
  "caliper_invariant h vertices b \<longleftrightarrow>
     (case (js_nth (u b) 0, js_nth (u b) 1) of
        (Some r0, Some r1) \<Rightarrow> deref h r1 = perp (deref h r0)
      | _ \<Rightarrow> False) \<and>
     recomputed_area h vertices b = Some (area b)"

text \<open>
  A point within a rectangle given by width, height, centre and angle, up to a
  tolerance: its offset from the centre, measured along the rectangle's two axes, is at
  most half the width and half the height.
\<close>

definition in_rect :: "real \<Rightarrow> rect \<Rightarrow> real \<times> real \<Rightarrow> bool" where
  "in_rect tol r p \<longleftrightarrow>
     \<bar>dot (sub_v p (center r)) (cos (angle r), sin (angle r))\<bar> \<le> width r / 2 + tol \<and>
     \<bar>dot (sub_v p (center r)) (- sin (angle r), cos (angle r))\<bar> \<le> height r / 2 + tol"

text \<open>
  The projection of a vertex on the axes \<open>a0\<close> and \<open>a0\<close> turned by +90 degrees, seen
  from \<open>origin\<close>: the vector \<open>v\<close> of line 190. The three orders in which \<open>smallestBox\<close>
  looks for its supports: \<open>beats1 v s\<close> is the test of line 192 (further along x, or as far
  and higher in y), \<open>beats2\<close> that of line 197 (higher in y, or as high and less far along
  x), \<open>beats3\<close> that of line 202 (less far along x, or as far and lower in y).
\<close>

definition proj :: "vec \<Rightarrow> vec \<Rightarrow> vec \<Rightarrow> vec" where
  "proj a0 origin p = (dot a0 (sub_v p origin), dot (perp a0) (sub_v p origin))"

definition beats1 :: "vec \<Rightarrow> vec \<Rightarrow> bool" where
  "beats1 v s \<longleftrightarrow> fst v > fst s \<or> (fst v = fst s \<and> snd v > snd s)"

definition beats2 :: "vec \<Rightarrow> vec \<Rightarrow> bool" where
  "beats2 v s \<longleftrightarrow> snd v > snd s \<or> (snd v = snd s \<and> fst v < fst s)"

definition beats3 :: "vec \<Rightarrow> vec \<Rightarrow> bool" where
  "beats3 v s \<longleftrightarrow> fst v < fst s \<or> (fst v = fst s \<and> snd v < snd s)"

text \<open>
  The state of the scan of \<open>smallestBox\<close> after its first \<open>k\<close> vertices: each support is
  the projection of the vertex its index names, and neither the origin (which projects
  to \<open>(0, 0)\<close>) nor any vertex seen so far beats it.
\<close>

definition scan_inv :: "vec list \<Rightarrow> vec \<Rightarrow> vec \<Rightarrow> int \<Rightarrow> nat \<Rightarrow> int list \<times> vec list \<Rightarrow> bool" where
  "scan_inv vertices a0 origin i1 k acc \<longleftrightarrow>
     length (fst acc) = 4 \<and> length (snd acc) = 4 \<and> fst acc ! 0 = i1 \<and>
     (\<forall>m\<in>{1, 2, 3}.
        0 \<le> fst acc ! m \<and> fst acc ! m < int (length vertices) \<and>
        snd acc ! m = proj a0 origin (vertices ! nat (fst acc ! m))) \<and>
     (\<forall>v\<in>insert (0, 0) (proj a0 origin ` set (take k vertices)).
        \<not> beats1 v (snd acc ! 1) \<and> \<not> beats2 v (snd acc ! 2) \<and> \<not> beats3 v (snd acc ! 3))"

text \<open>
  The edge of the polygon that ends in vertex \<open>i\<close>: \<open>vertex[i] - vertex[i - 1 mod n]\<close>.
\<close>

definition hull_edge :: "vec list \<Rightarrow> int \<Rightarrow> vec" where
  "hull_edge vertices i =
     sub_v (vertices ! nat i) (vertices ! nat ((i - 1) mod int (length vertices)))"

text \<open>
  A box whose \<open>u[0]\<close> is the polygon edge that ends in its bottom support \<open>index[0]\<close>,
  and whose \<open>u[1]\<close> is that edge turned by +90 degrees.
\<close>

definition on_edge :: "heap \<Rightarrow> vec list \<Rightarrow> Box \<Rightarrow> bool" where
  "on_edge h vertices b \<longleftrightarrow>
     (case js_nth (index b) 0 of
        None \<Rightarrow> False
      | Some i \<Rightarrow>
          0 \<le> i \<and> i < int (length vertices) \<and>
          map_option (deref h) (js_nth (u b) 0) = Some (hull_edge vertices i) \<and>
          map_option (deref h) (js_nth (u b) 1) = Some (perp (hull_edge vertices i)))"

text \<open>A box none of whose axis slots refers to the module-level \<open>u1\<close>.\<close>

definition fresh_box :: "Box \<Rightarrow> bool" where
  "fresh_box b \<longleftrightarrow> Module_u1 \<notin> set (u b)"

text \<open>
  Two states that differ at most in what the module-level vectors hold where the run
  cannot see it: \<open>perpE\<close> always, \<open>u1\<close> unless a slot of the box refers to it.
\<close>

definition same_view :: "state \<Rightarrow> state \<Rightarrow> bool" where
  "same_view s t \<longleftrightarrow>
     box s = box t \<and> angleInfo s = angleInfo t \<and> angleNum s = angleNum t \<and>
     visited s = visited t \<and> caller_hull (globals s) = caller_hull (globals t) \<and>
     (Module_u1 \<in> set (u (box s)) \<longrightarrow> u1 (globals s) = u1 (globals t))"

section \<open>Evaluation and the error monad\<close>

declare advance.simps [simp del]

lemma ebind_Inr [simp]: "ebind (Inr x) f = f x"
  by (simp add: ebind_def)

lemma ebind_Inl [simp]: "ebind (Inl e) f = Inl e"
  by (simp add: ebind_def)

lemma ebind_weak_cong: "m = m' \<Longrightarrow> ebind m f = ebind m' f"
  by simp

lemma ebind_eq_Inr: "ebind m f = Inr y \<longleftrightarrow> (\<exists>x. m = Inr x \<and> f x = Inr y)"
  by (cases m) simp_all

lemma defined_eq_Inr [simp]: "defined x = Inr v \<longleftrightarrow> x = Some v"
  by (cases x) (simp_all add: defined_def)

lemma slot_eq_Inr [simp]: "slot x = Inr v \<longleftrightarrow> x = Some v"
  by (cases x) (simp_all add: slot_def)

lemma defined_Some [simp]: "defined (Some v) = Inr v"
  by (simp add: defined_def)

lemma slot_Some [simp]: "slot (Some v) = Inr v"
  by (simp add: slot_def)

lemma js_nth_eq_Some: "js_nth xs i = Some v \<longleftrightarrow> 0 \<le> i \<and> i < int (length xs) \<and> xs ! nat i = v"
  by (auto simp: js_nth_def)

lemma js_nth_in_range: "0 \<le> i \<Longrightarrow> i < int (length xs) \<Longrightarrow> js_nth xs i = Some (xs ! nat i)"
  by (simp add: js_nth_def)

lemma js_nth_nat: "k < length xs \<Longrightarrow> js_nth xs (int k) = Some (xs ! k)"
  by (simp add: js_nth_def)

lemmas vec_defs = sub_v_def add_v_def dot_def negate_def multiplyScalar_def lengthSq_def
  jsdiv_def length_v_def normalize_def atan2_def perp_def

lemmas run_defs = rotatingCaliper_def initial_def extract_rect_def smallestBox_def scan_all_def
  scan_vertex_def support1_def support2_def support3_def computeAngles_def angle_side_def candidate_def record_angle_def negate_ref_def
  sortAngles_def js_sort_def filled_def compare_angles_def updateSupport_def finish_update_def
  rebase_def rect_of_def angle_at_def advance.simps cloneDeep_def deref_def store_def
  defined_def slot_def js_nth_def enumerate_eq_zip upt_rec Let_def


section \<open>What the operations change and what they leave alone\<close>

lemma ebindE:
  assumes "ebind m f = Inr y"
  obtains x where "m = Inr x" "f x = Inr y"
  using assms by (auto simp: ebind_eq_Inr)

subsection \<open>computeAngles: what it leaves alone\<close>

lemma negate_ref_cases:
  assumes "negate_ref k s = Inr s'"
  shows "(\<exists>v. js_nth (u (box s)) (int k) = Some (Fresh v) \<and>
              s' = s\<lparr>box := (box s)\<lparr>u := (u (box s))[k := Fresh (negate v)]\<rparr>\<rparr>) \<or>
         (js_nth (u (box s)) (int k) = Some Module_u1 \<and>
              s' = s\<lparr>globals := (globals s)\<lparr>u1 := negate (u1 (globals s))\<rparr>\<rparr>)"
  using assms by (auto simp: negate_ref_def split: option.splits vecref.splits)

lemma negate_ref_frame:
  assumes "negate_ref k s = Inr s'"
  shows "caller_hull (globals s') = caller_hull (globals s)" "visited s' = visited s"
    "angleInfo s' = angleInfo s" "angleNum s' = angleNum s"
    "index (box s') = index (box s)" "sqrLenU0 (box s') = sqrLenU0 (box s)"
    "area (box s') = area (box s)" "length (u (box s')) = length (u (box s))"
  using negate_ref_cases [OF assms] by auto

lemma record_angle_simps [simp]:
  "caller_hull (globals (record_angle s k0 d p1 p0)) = caller_hull (globals s)"
  "u1 (globals (record_angle s k0 d p1 p0)) = u1 (globals s)"
  "visited (record_angle s k0 d p1 p0) = visited s"
  "box (record_angle s k0 d p1 p0) = box s"
  "angleNum (record_angle s k0 d p1 p0) = Suc (angleNum s)"
  by (simp_all add: record_angle_def Let_def)

lemma candidate_frame:
  assumes "candidate vertices s k0 = Inr s'"
  shows "caller_hull (globals s') = caller_hull (globals s)" "visited s' = visited s"
    "index (box s') = index (box s)" "sqrLenU0 (box s') = sqrLenU0 (box s)"
    "area (box s') = area (box s)" "length (u (box s')) = length (u (box s))"
    "angleNum s' = Suc (angleNum s)"
  using assms
  by (auto simp: candidate_def split: if_splits elim!: ebindE dest: negate_ref_frame)

lemma angle_side_frame:
  assumes "angle_side vertices s kk = Inr s'"
  shows "caller_hull (globals s') = caller_hull (globals s)" "visited s' = visited s"
    "index (box s') = index (box s)" "sqrLenU0 (box s') = sqrLenU0 (box s)"
    "area (box s') = area (box s)" "length (u (box s')) = length (u (box s))"
  using assms by (auto simp: angle_side_def split: if_splits dest: candidate_frame)

lemma run_sides_frame:
  assumes "run_sides vertices kks s = Inr s'"
  shows "caller_hull (globals s') = caller_hull (globals s) \<and> visited s' = visited s \<and>
         index (box s') = index (box s) \<and> sqrLenU0 (box s') = sqrLenU0 (box s) \<and>
         area (box s') = area (box s) \<and> length (u (box s')) = length (u (box s))"
  using assms
proof (induction kks arbitrary: s)
  case Nil
  then show ?case by simp
next
  case (Cons kk kks)
  then obtain s1 where s1: "angle_side vertices s kk = Inr s1" "run_sides vertices kks s1 = Inr s'"
    by (auto elim: ebindE)
  from Cons.IH [OF s1(2)] angle_side_frame [OF s1(1)] show ?case by simp
qed

lemma computeAngles_frame:
  assumes "computeAngles vertices s = Inr (go, s')"
  shows "caller_hull (globals s') = caller_hull (globals s)" "visited s' = visited s"
    "index (box s') = index (box s)" "sqrLenU0 (box s') = sqrLenU0 (box s)"
    "area (box s') = area (box s)" "length (u (box s')) = length (u (box s))"
    "go \<longleftrightarrow> 0 < angleNum s'"
  using assms run_sides_frame [of vertices "[(3, 0), (0, 1), (1, 2), (2, 3)]" "s\<lparr>angleNum := 0\<rparr>" s']
  by (auto simp: computeAngles_def elim!: ebindE)


subsection \<open>updateSupport\<close>

lemma rebase_simps [simp]:
  "caller_hull (globals (rebase s vis nextIndex p1 p0 q1 q2 q3)) = caller_hull (globals s)"
  "perpE (globals (rebase s vis nextIndex p1 p0 q1 q2 q3)) = perpE (globals s)"
  "u1 (globals (rebase s vis nextIndex p1 p0 q1 q2 q3)) = perp (sub_v p1 p0)"
  "visited (rebase s vis nextIndex p1 p0 q1 q2 q3) = vis"
  "angleInfo (rebase s vis nextIndex p1 p0 q1 q2 q3) = angleInfo s"
  "angleNum (rebase s vis nextIndex p1 p0 q1 q2 q3) = angleNum s"
  "index (box (rebase s vis nextIndex p1 p0 q1 q2 q3)) = nextIndex"
  "u (box (rebase s vis nextIndex p1 p0 q1 q2 q3)) =
     [Fresh (sub_v p1 p0), Module_u1] @ drop 2 (u (box s))"
  "sqrLenU0 (box (rebase s vis nextIndex p1 p0 q1 q2 q3)) = lengthSq (sub_v p1 p0)"
  "area (box (rebase s vis nextIndex p1 p0 q1 q2 q3)) =
     jsdiv (dot (sub_v p1 p0) (sub_v q1 q3) * dot (perp (sub_v p1 p0)) (sub_v q2 p1))
       (lengthSq (sub_v p1 p0))"
  by (simp_all add: rebase_def Let_def perp_def)



subsection \<open>Well-formed states stay well-formed, and nothing throws\<close>

lemma wf_index_nth: "wf_index n idx \<Longrightarrow> k < 4 \<Longrightarrow> 0 \<le> idx ! k \<and> idx ! k < int n"
  by (simp add: wf_index_def)

lemma wf_index_js_nth: "wf_index n idx \<Longrightarrow> k < 4 \<Longrightarrow> js_nth idx (int k) = Some (idx ! k)"
  by (simp add: wf_index_def js_nth_def)

lemma wf_index_update:
  "wf_index n idx \<Longrightarrow> 0 \<le> v \<Longrightarrow> v < int n \<Longrightarrow> wf_index n (idx[k := v])"
  unfolding wf_index_def using set_update_subset_insert [of idx k v] by auto

lemma advance_total:
  assumes "wf_index n idx" "0 < n"
    and "\<forall>j<m. \<exists>a. angle_at ai srt j = Some a \<and> indexOfBox a < 4"
  shows "\<exists>idx' par'. advance ai srt n minAngle m k (idx, par) = Inr (idx', par') \<and>
           wf_index n idx' \<and> par' \<le> par + (m - k)"
  using assms(1)
proof (induction "m - k" arbitrary: k idx par)
  case 0
  then show ?case by (simp add: advance.simps)
next
  case (Suc d)
  then have km: "k < m" and d: "d = m - (k + 1)" by simp_all
  from assms(3) km obtain a where a: "angle_at ai srt k = Some a" "indexOfBox a < 4" by blast
  show ?case
  proof (cases "js_strict_eq (sinThetaSqr a) (sinThetaSqr minAngle)")
    case False
    from Suc.hyps(1) [OF d Suc.prems] obtain idx' par' where
      "advance ai srt n minAngle m (k + 1) (idx, par) = Inr (idx', par')" "wf_index n idx'"
      "par' \<le> par + (m - (k + 1))" by blast
    with km a False show ?thesis by (subst advance.simps) auto
  next
    case True
    let ?j = "idx ! indexOfBox a"
    let ?v = "if ?j + 1 = int n then 0 else ?j + 1"
    from wf_index_nth [OF Suc.prems a(2)] assms(2) have "0 \<le> ?v" "?v < int n" by auto
    then have "wf_index n (idx[indexOfBox a := ?v])" by (rule wf_index_update [OF Suc.prems])
    from Suc.hyps(1) [OF d this, of "par + 1"] obtain idx' par' where
      "advance ai srt n minAngle m (k + 1) (idx[indexOfBox a := ?v], par + 1) = Inr (idx', par')"
      "wf_index n idx'" "par' \<le> par + 1 + (m - (k + 1))" by blast
    with km a True wf_index_js_nth [OF Suc.prems a(2)] show ?thesis
      by (subst advance.simps) auto
  qed
qed

lemma mark_visited_total:
  assumes "length idx = 4"
    and "\<forall>k\<in>set ks. \<exists>a. angle_at ai srt k = Some a \<and> indexOfBox a < 4"
  shows "\<exists>vis'. mark_visited ai srt idx ks vis = Inr vis'"
  using assms(2)
proof (induction ks arbitrary: vis)
  case Nil
  then show ?case by simp
next
  case (Cons k ks)
  then obtain a where a: "angle_at ai srt k = Some a" "indexOfBox a < 4" by auto
  with assms(1) have "js_nth idx (int (indexOfBox a)) = Some (idx ! indexOfBox a)"
    by (simp add: js_nth_def)
  with a Cons show ?case by simp
qed

lemma cycle_index_total:
  assumes "length idx = 4"
  shows "cycle_index idx m ks = Inr (map (\<lambda>k. idx ! ((m + k) mod 4)) ks)"
proof (induction ks)
  case Nil
  then show ?case by simp
next
  case (Cons k ks)
  have "js_nth idx (int ((m + k) mod 4)) = Some (idx ! ((m + k) mod 4))"
    using assms by (simp add: js_nth_def)
  with Cons show ?case by simp
qed


lemma prev_index:
  "0 \<le> (j::int) \<Longrightarrow> j < n \<Longrightarrow> (if j - 1 < 0 then n - 1 else j - 1) = (j - 1) mod n"
  by (cases "j = 0") (simp_all add: zmod_minus1)

lemma if_eq_Inr_True:
  "((if c then Inr (False, a) else m) = Inr (True, s')) \<longleftrightarrow> (\<not> c \<and> m = Inr (True, s'))"
  by simp

lemma finish_update_eq_True:
  "finish_update srt vertices s minAngle idx parallel = Inr (True, s') \<longleftrightarrow>
   (\<exists>bottom. js_nth idx (int (indexOfBox minAngle)) = Some bottom \<and> \<not> visited s bottom \<and>
    (\<exists>vis. mark_visited (angleInfo s) srt idx [0..<parallel] (visited s) = Inr vis \<and>
    (\<exists>nextIndex. cycle_index idx (indexOfBox minAngle) [0, 1, 2, 3] = Inr nextIndex \<and>
    (\<exists>j1. js_nth nextIndex 0 = Some j1 \<and>
    (\<exists>p1. js_nth vertices j1 = Some p1 \<and>
    (\<exists>p0. js_nth vertices (if j1 - 1 < 0 then int (length vertices) - 1 else j1 - 1) = Some p0 \<and>
    (\<exists>i1. js_nth nextIndex 1 = Some i1 \<and>
    (\<exists>q1. js_nth vertices i1 = Some q1 \<and>
    (\<exists>i3. js_nth nextIndex 3 = Some i3 \<and>
    (\<exists>q3. js_nth vertices i3 = Some q3 \<and>
    (\<exists>i2. js_nth nextIndex 2 = Some i2 \<and>
    (\<exists>q2. js_nth vertices i2 = Some q2 \<and>
       s' = rebase (s\<lparr>box := (box s)\<lparr>index := idx\<rparr>\<rparr>) vis nextIndex p1 p0 q1 q2 q3))))))))))))"
  unfolding finish_update_def ebind_eq_Inr if_eq_Inr_True slot_eq_Inr defined_eq_Inr
  by (simp only: sum.inject prod.inject simp_thms eq_commute [of "rebase _ _ _ _ _ _ _ _" s'])


lemma updateSupport_eq_Inr:
  "updateSupport srt vertices s = Inr r \<longleftrightarrow>
   (\<exists>minAngle idx parallel.
      angle_at (angleInfo s) srt 0 = Some minAngle \<and>
      advance (angleInfo s) srt (length vertices) minAngle (angleNum s) 0 (index (box s), 0)
        = Inr (idx, parallel) \<and>
      finish_update srt vertices s minAngle idx parallel = Inr r)"
  unfolding updateSupport_def ebind_eq_Inr defined_eq_Inr by auto

lemma updateSupport_true:
  assumes "updateSupport srt vertices s = Inr (True, s')"
  obtains idx vis nextIndex j1 p1 p0 i1 q1 i3 q3 i2 q2 where
    "js_nth nextIndex 0 = Some j1" "js_nth vertices j1 = Some p1"
    "js_nth vertices (if j1 - 1 < 0 then int (length vertices) - 1 else j1 - 1) = Some p0"
    "js_nth nextIndex 1 = Some i1" "js_nth vertices i1 = Some q1"
    "js_nth nextIndex 3 = Some i3" "js_nth vertices i3 = Some q3"
    "js_nth nextIndex 2 = Some i2" "js_nth vertices i2 = Some q2"
    "s' = rebase (s\<lparr>box := (box s)\<lparr>index := idx\<rparr>\<rparr>) vis nextIndex p1 p0 q1 q2 q3"
proof -
  from assms obtain minAngle idx parallel where
    "finish_update srt vertices s minAngle idx parallel = Inr (True, s')"
    unfolding updateSupport_eq_Inr by blast
  then show thesis
    unfolding finish_update_eq_True by (elim exE conjE) (rule that)
qed

lemma updateSupport_true_on_edge:
  assumes "updateSupport srt vertices s = Inr (True, s')"
  shows "on_edge (globals s') vertices (box s')"
  using assms
proof (rule updateSupport_true)
  fix idx vis nextIndex j1 p1 p0 i1 q1 i3 q3 i2 q2
  assume n: "js_nth nextIndex 0 = Some j1" and p1: "js_nth vertices j1 = Some p1"
    and p0: "js_nth vertices (if j1 - 1 < 0 then int (length vertices) - 1 else j1 - 1) = Some p0"
    and s': "s' = rebase (s\<lparr>box := (box s)\<lparr>index := idx\<rparr>\<rparr>) vis nextIndex p1 p0 q1 q2 q3"
  from p1 have r: "0 \<le> j1" "j1 < int (length vertices)" "p1 = vertices ! nat j1"
    by (auto simp: js_nth_eq_Some)
  from p0 have "p0 = vertices ! nat ((j1 - 1) mod int (length vertices))"
    unfolding prev_index [OF r(1,2)] by (simp add: js_nth_eq_Some)
  with r n s' show ?thesis
    by (simp add: on_edge_def hull_edge_def js_nth_def deref_def)
qed

lemma updateSupport_true_invariant:
  assumes "updateSupport srt vertices s = Inr (True, s')"
  shows "caliper_invariant (globals s') vertices (box s')"
  using assms
proof (rule updateSupport_true)
  fix idx vis nextIndex j1 p1 p0 i1 q1 i3 q3 i2 q2
  assume "js_nth nextIndex 0 = Some j1" "js_nth vertices j1 = Some p1"
    "js_nth nextIndex 1 = Some i1" "js_nth vertices i1 = Some q1"
    "js_nth nextIndex 3 = Some i3" "js_nth vertices i3 = Some q3"
    "js_nth nextIndex 2 = Some i2" "js_nth vertices i2 = Some q2"
    "s' = rebase (s\<lparr>box := (box s)\<lparr>index := idx\<rparr>\<rparr>) vis nextIndex p1 p0 q1 q2 q3"
  then show ?thesis
    by (simp add: caliper_invariant_def recomputed_area_def js_nth_def deref_def lengthSq_def dot_def)
qed

lemma wf_index_cycle:
  assumes "wf_index n idx"
  shows "wf_index n (map (\<lambda>k. idx ! ((m + k) mod 4)) [0, 1, 2, 3])"
  using assms by (simp add: wf_index_def)

lemma finish_update_total:
  assumes wf: "wf_state (length vertices) s" "wf_index (length vertices) idx"
    and n: "0 < length vertices"
    and m: "indexOfBox minAngle < 4"
    and par: "\<forall>k<parallel. \<exists>a. angle_at (angleInfo s) srt k = Some a \<and> indexOfBox a < 4"
  shows "\<exists>go s'. finish_update srt vertices s minAngle idx parallel = Inr (go, s') \<and>
           wf_state (length vertices) s'"
proof -
  from wf(2) have len: "length idx = 4" by (simp add: wf_index_def)
  have bottom: "js_nth idx (int (indexOfBox minAngle)) = Some (idx ! indexOfBox minAngle)"
    by (rule wf_index_js_nth [OF wf(2) m])
  show ?thesis
  proof (cases "visited s (idx ! indexOfBox minAngle)")
    case True
    with bottom wf show ?thesis
      by (auto simp: finish_update_def wf_state_def wf_box_def)
  next
    case False
    from par obtain vis where
      vis: "mark_visited (angleInfo s) srt idx [0..<parallel] (visited s) = Inr vis"
      using mark_visited_total [OF len, of "[0..<parallel]" "angleInfo s" srt "visited s"] by auto
    define nxt where "nxt = map (\<lambda>k. idx ! ((indexOfBox minAngle + k) mod 4)) [0, 1, 2, 3]"
    have cyc: "cycle_index idx (indexOfBox minAngle) [0, 1, 2, 3] = Inr nxt"
      unfolding nxt_def by (rule cycle_index_total [OF len])
    have wfn: "wf_index (length vertices) nxt"
      unfolding nxt_def by (rule wf_index_cycle [OF wf(2)])
    have nx: "js_nth nxt (int k) = Some (nxt ! k)" "0 \<le> nxt ! k" "nxt ! k < int (length vertices)"
      if "k < 4" for k
      using wf_index_js_nth [OF wfn that] wf_index_nth [OF wfn that] by auto
    have vx: "js_nth vertices j = Some (vertices ! nat j)" if "0 \<le> j" "j < int (length vertices)" for j
      using that by (simp add: js_nth_def)
    define j0 where "j0 = (if nxt ! 0 - 1 < 0 then int (length vertices) - 1 else nxt ! 0 - 1)"
    have j0: "0 \<le> j0" "j0 < int (length vertices)"
      unfolding j0_def using nx(2,3) [of 0] n by auto
    define s' where "s' = rebase (s\<lparr>box := (box s)\<lparr>index := idx\<rparr>\<rparr>) vis nxt
        (vertices ! nat (nxt ! 0)) (vertices ! nat j0)
        (vertices ! nat (nxt ! 1)) (vertices ! nat (nxt ! 2)) (vertices ! nat (nxt ! 3))"
    have n0: "js_nth nxt 0 = Some (nxt ! 0)" and n1: "js_nth nxt 1 = Some (nxt ! 1)"
      and n2: "js_nth nxt 2 = Some (nxt ! 2)" and n3: "js_nth nxt 3 = Some (nxt ! 3)"
      using nx(1) [of 0] nx(1) [of 1] nx(1) [of 2] nx(1) [of 3] by simp_all
    have v0: "js_nth vertices (nxt ! 0) = Some (vertices ! nat (nxt ! 0))"
      and v1: "js_nth vertices (nxt ! 1) = Some (vertices ! nat (nxt ! 1))"
      and v2: "js_nth vertices (nxt ! 2) = Some (vertices ! nat (nxt ! 2))"
      and v3: "js_nth vertices (nxt ! 3) = Some (vertices ! nat (nxt ! 3))"
      using vx [OF nx(2,3), of 0] vx [OF nx(2,3), of 1] vx [OF nx(2,3), of 2] vx [OF nx(2,3), of 3]
      by simp_all
    have vj: "js_nth vertices (if nxt ! 0 - 1 < 0 then int (length vertices) - 1 else nxt ! 0 - 1)
        = Some (vertices ! nat j0)"
      using vx [OF j0] unfolding j0_def .
    have "finish_update srt vertices s minAngle idx parallel = Inr (True, s')"
      unfolding finish_update_eq_True
      by (intro exI conjI) (rule bottom False vis cyc n0 v0 vj n1 v1 n3 v3 n2 v2 s'_def)+
    moreover from wf wfn have "wf_state (length vertices) s'"
      by (simp add: wf_state_def wf_box_def s'_def)
    ultimately show ?thesis by blast
  qed
qed

lemma updateSupport_total:
  assumes wf: "wf_state (length vertices) s" and n: "0 < length vertices"
    and cand: "\<forall>k<angleNum s. \<exists>a. angle_at (angleInfo s) srt k = Some a \<and> indexOfBox a < 4"
    and pos: "0 < angleNum s"
  shows "\<exists>go s'. updateSupport srt vertices s = Inr (go, s') \<and> wf_state (length vertices) s'"
proof -
  from cand pos obtain minAngle where
    m: "angle_at (angleInfo s) srt 0 = Some minAngle" "indexOfBox minAngle < 4" by blast
  from wf have wi: "wf_index (length vertices) (index (box s))"
    by (simp add: wf_state_def wf_box_def)
  from advance_total [OF wi n cand, of minAngle 0 0] obtain idx par where
    a: "advance (angleInfo s) srt (length vertices) minAngle (angleNum s) 0 (index (box s), 0)
          = Inr (idx, par)"
    and wi': "wf_index (length vertices) idx" and p: "par \<le> angleNum s" by auto
  from cand p have "\<forall>k<par. \<exists>a. angle_at (angleInfo s) srt k = Some a \<and> indexOfBox a < 4"
    by auto
  from finish_update_total [OF wf wi' n m(2) this] obtain go s' where
    "finish_update srt vertices s minAngle idx par = Inr (go, s')" "wf_state (length vertices) s'"
    by blast
  with m(1) a show ?thesis unfolding updateSupport_eq_Inr by blast
qed

subsection \<open>computeAngles on a well-formed state\<close>

lemma store_wf:
  assumes "wf_buffer ai" "k < 4" "indexOfBox a < 4"
  shows "wf_buffer (store ai k a)"
  using assms set_update_subset_insert [of ai k "Some a"]
  by (auto simp: wf_buffer_def store_def)

lemma store_filled_prefix:
  assumes "length ai = 4" "k < 4" "filled_prefix ai k"
  shows "filled_prefix (store ai k a) (Suc k)"
  using assms by (auto simp: filled_prefix_def store_def nth_list_update less_Suc_eq)

lemma and_one_less_two: "(k::nat) AND 1 < 2"
  by (simp add: and_one_eq)

lemma record_angle_buffer:
  "angleInfo (record_angle s k0 d p1 p0) =
     store (angleInfo s) (angleNum s)
       \<lparr>sinThetaSqr =
          jsdiv (dot (- snd (sub_v p1 p0), fst (sub_v p1 p0)) d *
                 dot (- snd (sub_v p1 p0), fst (sub_v p1 p0)) d)
                (dot (sub_v p1 p0) (sub_v p1 p0) * dot d d),
        indexOfBox = k0\<rparr>"
  by (simp add: record_angle_def Let_def)

lemma negate_ref_total:
  assumes "length (u (box s)) = 2" "k < 2"
  shows "\<exists>s'. negate_ref k s = Inr s'"
  using assms by (auto simp: negate_ref_def js_nth_def split: vecref.splits)

lemma candidate_total:
  assumes wf: "wf_state (length vertices) s" and n: "0 < length vertices"
    and k: "k0 < 4" and num: "angleNum s < 4" and pre: "filled_prefix (angleInfo s) (angleNum s)"
  shows "\<exists>s'. candidate vertices s k0 = Inr s' \<and> wf_state (length vertices) s' \<and>
           angleNum s' = Suc (angleNum s) \<and> filled_prefix (angleInfo s') (angleNum s')"
proof -
  from wf have lu: "length (u (box s)) = 2" and wi: "wf_index (length vertices) (index (box s))"
    and wb: "wf_buffer (angleInfo s)"
    by (simp_all add: wf_state_def wf_box_def)
  obtain s1 where s1: "(if k0 AND 2 \<noteq> 0 then negate_ref (k0 AND 1) s else Inr s) = Inr s1"
    using negate_ref_total [OF lu and_one_less_two, of k0] by (cases "k0 AND 2 \<noteq> 0") auto
  then have fr: "length (u (box s1)) = 2" "index (box s1) = index (box s)"
    "angleInfo s1 = angleInfo s" "angleNum s1 = angleNum s"
    using lu by (auto split: if_splits dest: negate_ref_frame)
  define r where "r = u (box s1) ! (k0 AND 1)"
  have r: "js_nth (u (box s1)) (int (k0 AND 1)) = Some r"
    unfolding r_def using fr(1) and_one_less_two [of k0] by (simp add: js_nth_def)
  define j0 where "j0 = index (box s) ! k0"
  have j0: "js_nth (index (box s1)) (int k0) = Some j0" "0 \<le> j0" "j0 < int (length vertices)"
    unfolding j0_def fr(2) using wf_index_js_nth [OF wi k] wf_index_nth [OF wi k] by auto
  define j1 where "j1 = (if j0 + 1 = int (length vertices) then 0 else j0 + 1)"
  have j1: "0 \<le> j1" "j1 < int (length vertices)" unfolding j1_def using j0(2,3) n by auto
  have p1: "js_nth vertices (if j0 + 1 = int (length vertices) then 0 else j0 + 1)
      = Some (vertices ! nat j1)"
    using j1 unfolding j1_def by (simp add: js_nth_def)
  have p0: "js_nth vertices j0 = Some (vertices ! nat j0)"
    using j0(2,3) by (simp add: js_nth_def)
  define s' where "s' = record_angle s1 k0 (deref (globals s1) r) (vertices ! nat j1) (vertices ! nat j0)"
  have "candidate vertices s k0 = Inr s'"
    unfolding candidate_def ebind_eq_Inr defined_eq_Inr
    by (intro exI conjI) (rule s1 r j0(1) p1 p0 | simp add: s'_def)+
  moreover obtain a where
    a: "angleInfo s' = store (angleInfo s) (angleNum s) a" "indexOfBox a = k0"
    unfolding s'_def record_angle_buffer fr(3,4) by simp
  have "wf_buffer (angleInfo s')" "filled_prefix (angleInfo s') (Suc (angleNum s))"
    unfolding a(1) using store_wf [OF wb num, of a] store_filled_prefix [OF _ num pre, of a] wb k a(2)
    by (simp_all add: wf_buffer_def)
  moreover have "box s' = box s1" "angleNum s' = Suc (angleNum s)"
    by (simp_all add: s'_def fr)
  ultimately show ?thesis using fr wi by (simp add: wf_state_def wf_box_def)
qed

lemma angle_side_total:
  assumes "wf_state (length vertices) s" "0 < length vertices" "fst kk < 4"
    "angleNum s < 4" "filled_prefix (angleInfo s) (angleNum s)"
  shows "\<exists>s'. angle_side vertices s kk = Inr s' \<and> wf_state (length vertices) s' \<and>
           angleNum s' \<le> Suc (angleNum s) \<and> filled_prefix (angleInfo s') (angleNum s')"
proof (cases "js_nth (index (box s)) (int (fst kk)) = js_nth (index (box s)) (int (snd kk))")
  case True
  with assms show ?thesis by (simp add: angle_side_def)
next
  case False
  with candidate_total [OF assms] show ?thesis by (auto simp: angle_side_def)
qed

lemma run_sides_total:
  assumes "0 < length vertices" "\<forall>kk\<in>set kks. fst kk < 4"
    "wf_state (length vertices) s" "angleNum s + length kks \<le> 4"
    "filled_prefix (angleInfo s) (angleNum s)"
  shows "\<exists>s'. run_sides vertices kks s = Inr s' \<and> wf_state (length vertices) s' \<and>
           angleNum s' \<le> angleNum s + length kks \<and> filled_prefix (angleInfo s') (angleNum s')"
  using assms(2-)
proof (induction kks arbitrary: s)
  case Nil
  then show ?case by simp
next
  case (Cons kk kks)
  from Cons.prems have "fst kk < 4" "angleNum s < 4" by simp_all
  from angle_side_total [OF Cons.prems(2) assms(1) this Cons.prems(4)] obtain s1 where
    s1: "angle_side vertices s kk = Inr s1" "wf_state (length vertices) s1"
    "angleNum s1 \<le> Suc (angleNum s)" "filled_prefix (angleInfo s1) (angleNum s1)" by blast
  from Cons.prems s1(3) have "\<forall>kk\<in>set kks. fst kk < 4" "angleNum s1 + length kks \<le> 4"
    by simp_all
  from Cons.IH [OF this(1) s1(2) this(2) s1(4)] s1(1,3) show ?case by auto
qed

lemma computeAngles_total:
  assumes "wf_state (length vertices) s" "0 < length vertices"
  shows "\<exists>go s'. computeAngles vertices s = Inr (go, s') \<and> wf_state (length vertices) s' \<and>
           angleNum s' \<le> 4 \<and> filled_prefix (angleInfo s') (angleNum s') \<and>
           (go \<longleftrightarrow> 0 < angleNum s')"
proof -
  have "\<exists>s'. run_sides vertices [(3, 0), (0, 1), (1, 2), (2, 3)] (s\<lparr>angleNum := 0\<rparr>) = Inr s' \<and>
          wf_state (length vertices) s' \<and>
          angleNum s' \<le> angleNum (s\<lparr>angleNum := 0\<rparr>) + length [(3::nat, 0::nat), (0, 1), (1, 2), (2, 3)] \<and>
          filled_prefix (angleInfo s') (angleNum s')"
    using assms by (intro run_sides_total) (simp_all add: wf_state_def filled_prefix_def)
  then show ?thesis by (auto simp: computeAngles_def)
qed

subsection \<open>sortAngles returns slots that hold an entry\<close>

lemma set_insert_by: "set (insert_by c x ys) = insert x (set ys)"
  by (induction ys) auto

lemma length_insert_by: "length (insert_by c x ys) = Suc (length ys)"
  by (induction ys) auto

lemma set_foldl_insert_by: "set (foldl (\<lambda>acc x. insert_by c x acc) acc xs) = set acc \<union> set xs"
  by (induction xs arbitrary: acc) (auto simp: set_insert_by)

lemma length_foldl_insert_by:
  "length (foldl (\<lambda>acc x. insert_by c x acc) acc xs) = length acc + length xs"
  by (induction xs arbitrary: acc) (auto simp: length_insert_by)

lemma set_js_sort [simp]: "set (js_sort c xs) = set xs"
  by (simp add: js_sort_def set_foldl_insert_by)

lemma length_js_sort [simp]: "length (js_sort c xs) = length xs"
  by (simp add: js_sort_def length_foldl_insert_by)

lemma set_filled: "set (filled ai) = {(i, a). i < length ai \<and> ai ! i = Some a}"
  by (auto simp: filled_def split: option.splits)

lemma length_filled_prefix:
  assumes "filled_prefix ai n" "n \<le> length ai"
  shows "n \<le> length (filled ai)"
proof -
  let ?f = "\<lambda>i. case ai ! i of None \<Rightarrow> [] | Some a \<Rightarrow> [(i, a)]"
  have "length (concat (map ?f [0..<k])) = k" if "k \<le> n" for k
    using that
  proof (induction k)
    case 0
    then show ?case by simp
  next
    case (Suc k)
    from Suc.prems have "k < n" by simp
    with assms(1) obtain a where "ai ! k = Some a" unfolding filled_prefix_def by blast
    with Suc show ?case by simp
  qed
  then have "length (concat (map ?f [0..<n])) = n" by simp
  moreover have "[0..<length ai] = [0..<n] @ [n..<length ai]"
    using assms(2) by (metis le_add_diff_inverse upt_add_eq_append zero_le)
  ultimately show ?thesis by (simp add: filled_def)
qed

lemma sortAngles_candidates:
  assumes "wf_buffer ai" "filled_prefix ai n" "0 < n" "n \<le> 4"
  shows "\<forall>k<n. \<exists>a. angle_at ai (sortAngles ai n) k = Some a \<and> indexOfBox a < 4"
proof (intro allI impI)
  fix k assume k: "k < n"
  from assms(1) have len: "length ai = 4" by (simp add: wf_buffer_def)
  let ?srt = "sortAngles ai n"
  from assms(3) have srt: "?srt = map fst (js_sort (\<lambda>a b. compare_angles n (snd a) (snd b)) (filled ai))"
    by (simp add: sortAngles_def)
  from length_filled_prefix [OF assms(2)] assms(4) len k have kl: "k < length ?srt"
    by (simp add: srt)
  then have "?srt ! k \<in> fst ` set (filled ai)"
    unfolding srt by (metis (no_types, lifting) list.set_map nth_mem set_js_sort)
  then obtain a where a: "?srt ! k < length ai" "ai ! (?srt ! k) = Some a"
    by (auto simp: set_filled)
  then have "Some a \<in> set ai" by (metis nth_mem)
  with assms(1) have "indexOfBox a < 4" by (simp add: wf_buffer_def)
  moreover from kl a have "angle_at ai ?srt k = Some a"
    by (simp add: angle_at_def js_nth_def)
  ultimately show "\<exists>a. angle_at ai ?srt k = Some a \<and> indexOfBox a < 4" by blast
qed

subsection \<open>The scan of smallestBox\<close>

lemma support1_slots:
  assumes "length (fst acc) = 4" "length (snd acc) = 4"
  shows "length (fst (support1 i v acc)) = 4" "length (snd (support1 i v acc)) = 4"
    "fst (support1 i v acc) ! 1 = (if beats1 v (snd acc ! 1) then i else fst acc ! 1)"
    "snd (support1 i v acc) ! 1 = (if beats1 v (snd acc ! 1) then v else snd acc ! 1)"
    "fst (support1 i v acc) ! 0 = fst acc ! 0"
    "fst (support1 i v acc) ! 2 = fst acc ! 2"
    "fst (support1 i v acc) ! 3 = fst acc ! 3"
    "snd (support1 i v acc) ! 2 = snd acc ! 2"
    "snd (support1 i v acc) ! 3 = snd acc ! 3"
  using assms by (simp_all add: support1_def beats1_def)

lemma support2_slots:
  assumes "length (fst acc) = 4" "length (snd acc) = 4"
  shows "length (fst (support2 i v acc)) = 4" "length (snd (support2 i v acc)) = 4"
    "fst (support2 i v acc) ! 2 = (if beats2 v (snd acc ! 2) then i else fst acc ! 2)"
    "snd (support2 i v acc) ! 2 = (if beats2 v (snd acc ! 2) then v else snd acc ! 2)"
    "fst (support2 i v acc) ! 0 = fst acc ! 0"
    "fst (support2 i v acc) ! 1 = fst acc ! 1"
    "fst (support2 i v acc) ! 3 = fst acc ! 3"
    "snd (support2 i v acc) ! 1 = snd acc ! 1"
    "snd (support2 i v acc) ! 3 = snd acc ! 3"
  using assms by (simp_all add: support2_def beats2_def)

lemma support3_slots:
  assumes "length (fst acc) = 4" "length (snd acc) = 4"
  shows "length (fst (support3 i v acc)) = 4" "length (snd (support3 i v acc)) = 4"
    "fst (support3 i v acc) ! 3 = (if beats3 v (snd acc ! 3) then i else fst acc ! 3)"
    "snd (support3 i v acc) ! 3 = (if beats3 v (snd acc ! 3) then v else snd acc ! 3)"
    "fst (support3 i v acc) ! 0 = fst acc ! 0"
    "fst (support3 i v acc) ! 1 = fst acc ! 1"
    "fst (support3 i v acc) ! 2 = fst acc ! 2"
    "snd (support3 i v acc) ! 1 = snd acc ! 1"
    "snd (support3 i v acc) ! 2 = snd acc ! 2"
  using assms by (simp_all add: support3_def beats3_def)

lemma scan_vertex_slots:
  fixes a0 origin p :: vec and i :: nat and acc :: "int list \<times> vec list"
  defines "v \<equiv> proj a0 origin p"
  defines "r \<equiv> scan_vertex a0 (perp a0) origin acc (i, p)"
  assumes len: "length (fst acc) = 4" "length (snd acc) = 4"
  shows "length (fst r) = 4" "length (snd r) = 4" "fst r ! 0 = fst acc ! 0"
    "fst r ! 1 = (if beats1 v (snd acc ! 1) then int i else fst acc ! 1)"
    "snd r ! 1 = (if beats1 v (snd acc ! 1) then v else snd acc ! 1)"
    "fst r ! 2 = (if beats2 v (snd acc ! 2) then int i else fst acc ! 2)"
    "snd r ! 2 = (if beats2 v (snd acc ! 2) then v else snd acc ! 2)"
    "fst r ! 3 = (if beats3 v (snd acc ! 3) then int i else fst acc ! 3)"
    "snd r ! 3 = (if beats3 v (snd acc ! 3) then v else snd acc ! 3)"
proof -
  note s1 = support1_slots [OF len, where i = "int i" and v = v]
  note s2 = support2_slots [OF s1(1,2), where i = "int i" and v = v]
  note s3 = support3_slots [OF s2(1,2), where i = "int i" and v = v]
  have r: "r = support3 (int i) v (support2 (int i) v (support1 (int i) v acc))"
    by (simp add: r_def v_def scan_vertex_def proj_def Let_def)
  show "length (fst r) = 4" "length (snd r) = 4" unfolding r by (rule s3)+
  show "fst r ! 0 = fst acc ! 0" unfolding r s3 s2 s1 by (rule refl)
  show "fst r ! 1 = (if beats1 v (snd acc ! 1) then int i else fst acc ! 1)"
    unfolding r s3 s2 s1 by (rule refl)
  show "snd r ! 1 = (if beats1 v (snd acc ! 1) then v else snd acc ! 1)"
    unfolding r s3 s2 s1 by (rule refl)
  show "fst r ! 2 = (if beats2 v (snd acc ! 2) then int i else fst acc ! 2)"
    unfolding r s3 s2 s1 by (rule refl)
  show "snd r ! 2 = (if beats2 v (snd acc ! 2) then v else snd acc ! 2)"
    unfolding r s3 s2 s1 by (rule refl)
  show "fst r ! 3 = (if beats3 v (snd acc ! 3) then int i else fst acc ! 3)"
    unfolding r s3 s2 s1 by (rule refl)
  show "snd r ! 3 = (if beats3 v (snd acc ! 3) then v else snd acc ! 3)"
    unfolding r s3 s2 s1 by (rule refl)
qed

lemma beats_trans:
  "\<not> beats1 w s \<Longrightarrow> beats1 v s \<Longrightarrow> \<not> beats1 w v"
  "\<not> beats2 w s \<Longrightarrow> beats2 v s \<Longrightarrow> \<not> beats2 w v"
  "\<not> beats3 w s \<Longrightarrow> beats3 v s \<Longrightarrow> \<not> beats3 w v"
  by (auto simp: beats1_def beats2_def beats3_def)

lemma beats_irrefl [simp]: "\<not> beats1 v v" "\<not> beats2 v v" "\<not> beats3 v v"
  by (simp_all add: beats1_def beats2_def beats3_def)

lemma keep_best:
  "(w \<noteq> v \<Longrightarrow> \<not> beats1 w s) \<Longrightarrow> \<not> beats1 w (if beats1 v s then v else s)"
  "(w \<noteq> v \<Longrightarrow> \<not> beats2 w s) \<Longrightarrow> \<not> beats2 w (if beats2 v s then v else s)"
  "(w \<noteq> v \<Longrightarrow> \<not> beats3 w s) \<Longrightarrow> \<not> beats3 w (if beats3 v s then v else s)"
  by (cases "w = v"; auto dest: beats_trans)+

lemma scan_inv_step:
  assumes inv: "scan_inv vertices a0 origin i1 k acc" and k: "k < length vertices"
  shows "scan_inv vertices a0 origin i1 (Suc k) (scan_vertex a0 (perp a0) origin acc (k, vertices ! k))"
proof -
  let ?r = "scan_vertex a0 (perp a0) origin acc (k, vertices ! k)"
  let ?v = "proj a0 origin (vertices ! k)"
  from inv have len: "length (fst acc) = 4" "length (snd acc) = 4"
    unfolding scan_inv_def by blast+
  note sl = scan_vertex_slots [OF len, where ?a0.0 = a0 and origin = origin and i = k and p = "vertices ! k"]
  from inv have old: "\<not> beats1 w (snd acc ! 1)" "\<not> beats2 w (snd acc ! 2)" "\<not> beats3 w (snd acc ! 3)"
    if "w \<in> insert (0, 0) (proj a0 origin ` set (take k vertices))" for w
    using that unfolding scan_inv_def by blast+
  have seen: "w \<in> insert (0, 0) (proj a0 origin ` set (take k vertices))"
    if "w \<in> insert (0, 0) (proj a0 origin ` set (take (Suc k) vertices))" "w \<noteq> ?v" for w
    using that k by (auto simp: take_Suc_conv_app_nth)
  have new: "\<not> beats1 w (snd ?r ! 1) \<and> \<not> beats2 w (snd ?r ! 2) \<and> \<not> beats3 w (snd ?r ! 3)"
    if "w \<in> insert (0, 0) (proj a0 origin ` set (take (Suc k) vertices))" for w
    unfolding sl by (intro conjI keep_best old seen [OF that])
  from inv have s0: "\<And>m. m \<in> {1, 2, 3} \<Longrightarrow> 0 \<le> fst acc ! m \<and> fst acc ! m < int (length vertices) \<and>
        snd acc ! m = proj a0 origin (vertices ! nat (fst acc ! m))"
    unfolding scan_inv_def by blast
  have supp: "0 \<le> fst ?r ! m \<and> fst ?r ! m < int (length vertices) \<and>
        snd ?r ! m = proj a0 origin (vertices ! nat (fst ?r ! m))" if "m \<in> {1, 2, 3}" for m
  proof -
    from that consider "m = 1" | "m = 2" | "m = 3" by blast
    then show ?thesis
    proof cases
      case 1
      with s0 [of 1] k show ?thesis unfolding 1 sl by (cases "beats1 ?v (snd acc ! 1)") simp_all
    next
      case 2
      with s0 [of 2] k show ?thesis unfolding 2 sl by (cases "beats2 ?v (snd acc ! 2)") simp_all
    next
      case 3
      with s0 [of 3] k show ?thesis unfolding 3 sl by (cases "beats3 ?v (snd acc ! 3)") simp_all
    qed
  qed
  from inv have "fst ?r ! 0 = i1" unfolding sl(3) scan_inv_def by blast
  with sl(1,2) supp new show ?thesis unfolding scan_inv_def by blast
qed

lemma scan_fold:
  assumes "scan_inv vertices a0 origin i1 k acc" "xs = drop k vertices"
  shows "scan_inv vertices a0 origin i1 (length vertices)
           (foldl (scan_vertex a0 (perp a0) origin) acc (enumerate k xs))"
  using assms
proof (induction xs arbitrary: k acc)
  case Nil
  then have t: "take k vertices = vertices" "take (length vertices) vertices = vertices"
    by simp_all
  from Nil.prems(1) [unfolded scan_inv_def t] show ?case
    unfolding foldl.simps enumerate_simps scan_inv_def t .
next
  case (Cons x xs)
  then have k: "k < length vertices" and x: "x = vertices ! k" and xs: "xs = drop (Suc k) vertices"
    by (metis drop_eq_Nil2 linorder_not_less list.distinct(1),
        metis Cons_nth_drop_Suc drop_eq_Nil2 linorder_not_less list.distinct(1) list.inject,
        metis Cons_nth_drop_Suc drop_eq_Nil2 linorder_not_less list.distinct(1) list.inject)
  from scan_inv_step [OF Cons.prems(1) k] Cons.IH [OF _ xs] show ?case
    by (simp add: x)
qed

lemma proj_origin [simp]: "proj a0 origin origin = (0, 0)"
  by (simp add: proj_def sub_v_def dot_def)

lemma scan_all_inv:
  assumes "0 \<le> i1" "i1 < int (length vertices)"
  shows "scan_inv vertices a0 (vertices ! nat i1) i1 (length vertices)
           (scan_all a0 (perp a0) (vertices ! nat i1) i1 vertices)"
proof -
  have "scan_inv vertices a0 (vertices ! nat i1) i1 0
          ([i1, i1, i1, i1], [(0, 0), (0, 0), (0, 0), (0, 0)])"
    using assms by (simp add: scan_inv_def)
  from scan_fold [OF this, of vertices] show ?thesis by (simp add: scan_all_def)
qed

lemma list4: "length xs = 4 \<Longrightarrow> xs = [xs ! 0, xs ! 1, xs ! 2, xs ! 3]"
  by (cases xs; simp; cases "tl xs"; simp; cases "tl (tl xs)"; simp; cases "tl (tl (tl xs))"; simp)

lemma smallestBox_eq:
  assumes "0 \<le> i0" "i0 < int (length vertices)" "0 \<le> i1" "i1 < int (length vertices)"
  shows "smallestBox i0 i1 vertices =
     (let a0 = sub_v (vertices ! nat i1) (vertices ! nat i0);
          acc = scan_all a0 (perp a0) (vertices ! nat i1) i1 vertices
      in Inr \<lparr>u = [Fresh a0, Fresh (perp a0)], index = fst acc, sqrLenU0 = dot a0 a0,
              area = jsdiv ((fst (snd acc ! 1) - fst (snd acc ! 3)) * snd (snd acc ! 2))
                       (dot a0 a0)\<rparr>)"
  using assms by (simp add: smallestBox_def js_nth_def Let_def perp_def)


lemma not_beats:
  "\<not> beats1 v s \<longleftrightarrow> fst v < fst s \<or> (fst v = fst s \<and> snd v \<le> snd s)"
  "\<not> beats2 v s \<longleftrightarrow> snd v < snd s \<or> (snd v = snd s \<and> fst s \<le> fst v)"
  "\<not> beats3 v s \<longleftrightarrow> fst s < fst v \<or> (fst v = fst s \<and> snd s \<le> snd v)"
  by (auto simp: beats1_def beats2_def beats3_def)

text \<open>
  Claim C6: for every vertex list and every starting edge \<open>(i0, i1)\<close> within it,
  \<open>smallestBox\<close> (a function of its three arguments alone: it reads and writes nothing
  else) returns a box with \<open>index[0] = i1\<close>; \<open>index[1]\<close> a vertex of largest
  projection x, and among those of largest projection y; \<open>index[2]\<close> a vertex of largest
  projection y, and among those of smallest projection x; \<open>index[3]\<close> a vertex of
  smallest projection x, and among those of smallest projection y; and
  \<open>area = (support[1].x - support[3].x) * support[2].y / sqrLenU0\<close>. The projections
  \<open>X\<close>, \<open>Y\<close> are taken on \<open>u0 = vertex[i1] - vertex[i0]\<close> and on \<open>u0\<close> turned by +90
  degrees, from the origin \<open>vertex[i1]\<close>.
\<close>

theorem C6_smallestBox_supports:
  fixes vertices :: "vec list" and i0 i1 :: int
  defines "a0 \<equiv> sub_v (vertices ! nat i1) (vertices ! nat i0)"
  defines "X \<equiv> \<lambda>j. fst (proj a0 (vertices ! nat i1) (vertices ! nat j))"
  defines "Y \<equiv> \<lambda>j. snd (proj a0 (vertices ! nat i1) (vertices ! nat j))"
  assumes r: "0 \<le> i0" "i0 < int (length vertices)" "0 \<le> i1" "i1 < int (length vertices)"
  shows "\<exists>j1 j2 j3.
     smallestBox i0 i1 vertices =
       Inr \<lparr>u = [Fresh a0, Fresh (perp a0)], index = [i1, j1, j2, j3], sqrLenU0 = dot a0 a0,
            area = jsdiv ((X j1 - X j3) * Y j2) (dot a0 a0)\<rparr> \<and>
     0 \<le> j1 \<and> j1 < int (length vertices) \<and>
     0 \<le> j2 \<and> j2 < int (length vertices) \<and>
     0 \<le> j3 \<and> j3 < int (length vertices) \<and>
     (\<forall>j. 0 \<le> j \<and> j < int (length vertices) \<longrightarrow> X j < X j1 \<or> (X j = X j1 \<and> Y j \<le> Y j1)) \<and>
     (\<forall>j. 0 \<le> j \<and> j < int (length vertices) \<longrightarrow> Y j < Y j2 \<or> (Y j = Y j2 \<and> X j2 \<le> X j)) \<and>
     (\<forall>j. 0 \<le> j \<and> j < int (length vertices) \<longrightarrow> X j3 < X j \<or> (X j = X j3 \<and> Y j3 \<le> Y j))"
proof -
  define acc where "acc = scan_all a0 (perp a0) (vertices ! nat i1) i1 vertices"
  have inv: "scan_inv vertices a0 (vertices ! nat i1) i1 (length vertices) acc"
    unfolding acc_def by (rule scan_all_inv [OF r(3,4)])
  then have len: "length (fst acc) = 4" and i: "fst acc ! 0 = i1"
    and sup: "\<And>m. m \<in> {1, 2, 3} \<Longrightarrow> 0 \<le> fst acc ! m \<and> fst acc ! m < int (length vertices) \<and>
        snd acc ! m = proj a0 (vertices ! nat i1) (vertices ! nat (fst acc ! m))"
    and best: "\<And>p. p \<in> set vertices \<Longrightarrow>
        \<not> beats1 (proj a0 (vertices ! nat i1) p) (snd acc ! 1) \<and>
        \<not> beats2 (proj a0 (vertices ! nat i1) p) (snd acc ! 2) \<and>
        \<not> beats3 (proj a0 (vertices ! nat i1) p) (snd acc ! 3)"
    unfolding scan_inv_def by auto
  have idx: "fst acc = [i1, fst acc ! 1, fst acc ! 2, fst acc ! 3]"
    using list4 [OF len] i by simp
  have s1: "snd acc ! 1 = (X (fst acc ! 1), Y (fst acc ! 1))"
    and s2: "snd acc ! 2 = (X (fst acc ! 2), Y (fst acc ! 2))"
    and s3: "snd acc ! 3 = (X (fst acc ! 3), Y (fst acc ! 3))"
    using sup [of 1] sup [of 2] sup [of 3] by (simp_all add: X_def Y_def)
  have "smallestBox i0 i1 vertices =
       Inr \<lparr>u = [Fresh a0, Fresh (perp a0)], index = [i1, fst acc ! 1, fst acc ! 2, fst acc ! 3],
            sqrLenU0 = dot a0 a0,
            area = jsdiv ((X (fst acc ! 1) - X (fst acc ! 3)) * Y (fst acc ! 2)) (dot a0 a0)\<rparr>"
    unfolding smallestBox_eq [OF r] Let_def a0_def [symmetric] acc_def [symmetric] s1 s2 s3
    using idx by simp
  moreover have "X j < X (fst acc ! 1) \<or> (X j = X (fst acc ! 1) \<and> Y j \<le> Y (fst acc ! 1))"
    "Y j < Y (fst acc ! 2) \<or> (Y j = Y (fst acc ! 2) \<and> X (fst acc ! 2) \<le> X j)"
    "X (fst acc ! 3) < X j \<or> (X j = X (fst acc ! 3) \<and> Y (fst acc ! 3) \<le> Y j)"
    if "0 \<le> j \<and> j < int (length vertices)" for j
  proof -
    from that have "nat j < length vertices" by linarith
    then have "vertices ! nat j \<in> set vertices" by (rule nth_mem)
    from best [OF this] show
      "X j < X (fst acc ! 1) \<or> (X j = X (fst acc ! 1) \<and> Y j \<le> Y (fst acc ! 1))"
      "Y j < Y (fst acc ! 2) \<or> (Y j = Y (fst acc ! 2) \<and> X (fst acc ! 2) \<le> X j)"
      "X (fst acc ! 3) < X j \<or> (X j = X (fst acc ! 3) \<and> Y (fst acc ! 3) \<le> Y j)"
      unfolding s1 s2 s3 not_beats by (simp_all add: X_def Y_def)
  qed
  ultimately show ?thesis using sup [of 1] sup [of 2] sup [of 3] by blast
qed

lemma js_nth_Cons_0 [simp]: "js_nth (x # xs) 0 = Some x"
  by (simp add: js_nth_def)

lemma js_nth_Cons_1 [simp]: "js_nth (x # y # xs) 1 = Some y"
  by (simp add: js_nth_def)

lemma dot_sub_right: "dot a (sub_v p q) = dot a (sub_v p r) - dot a (sub_v q r)"
  by (simp add: dot_def sub_v_def algebra_simps)

lemma smallestBox_shape:
  assumes r: "0 \<le> i0" "i0 < int (length vertices)" "0 \<le> i1" "i1 < int (length vertices)"
  shows "\<exists>b. smallestBox i0 i1 vertices = Inr b \<and> wf_box (length vertices) b \<and>
           js_nth (index b) 0 = Some i1 \<and>
           u b = [Fresh (sub_v (vertices ! nat i1) (vertices ! nat i0)),
                  Fresh (perp (sub_v (vertices ! nat i1) (vertices ! nat i0)))] \<and>
           caliper_invariant h vertices b"
proof -
  define a0 where "a0 = sub_v (vertices ! nat i1) (vertices ! nat i0)"
  define origin where "origin = vertices ! nat i1"
  define acc where "acc = scan_all a0 (perp a0) origin i1 vertices"
  define b where "b = \<lparr>u = [Fresh a0, Fresh (perp a0)], index = fst acc, sqrLenU0 = dot a0 a0,
      area = jsdiv ((fst (snd acc ! 1) - fst (snd acc ! 3)) * snd (snd acc ! 2)) (dot a0 a0)\<rparr>"
  have inv: "scan_inv vertices a0 origin i1 (length vertices) acc"
    unfolding acc_def origin_def by (rule scan_all_inv [OF r(3,4)])
  then have len: "length (fst acc) = 4" and i: "fst acc ! 0 = i1"
    and sup: "\<And>m. m \<in> {1, 2, 3} \<Longrightarrow> 0 \<le> fst acc ! m \<and> fst acc ! m < int (length vertices) \<and>
        snd acc ! m = proj a0 origin (vertices ! nat (fst acc ! m))"
    unfolding scan_inv_def by auto
  have eq: "smallestBox i0 i1 vertices = Inr b"
    unfolding smallestBox_eq [OF r] Let_def b_def acc_def a0_def origin_def ..
  have idx: "fst acc = [i1, fst acc ! 1, fst acc ! 2, fst acc ! 3]"
    using list4 [OF len] i by simp
  have rng: "0 \<le> fst acc ! m \<and> fst acc ! m < int (length vertices)" if "m < 4" for m
  proof -
    from that consider "m = 0" | "m = 1" | "m = 2" | "m = 3" by linarith
    then show ?thesis using sup [of 1] sup [of 2] sup [of 3] i r(3,4) by cases auto
  qed
  have wfi: "wf_index (length vertices) (fst acc)"
    unfolding wf_index_def using len rng by (auto simp: in_set_conv_nth)
  then have wf: "wf_box (length vertices) b" by (simp add: wf_box_def b_def)
  have i0: "js_nth (index b) 0 = Some i1" using len i by (simp add: b_def js_nth_def)
  have q: "js_nth (index b) (int m) = Some (fst acc ! m)"
    "js_nth vertices (fst acc ! m) = Some (vertices ! nat (fst acc ! m))" if "m < 4" for m
    using that len rng [OF that] by (simp_all add: b_def js_nth_def)
  have "recomputed_area h vertices b =
      Some (jsdiv (dot a0 (sub_v (vertices ! nat (fst acc ! 1)) (vertices ! nat (fst acc ! 3))) *
                   dot (perp a0) (sub_v (vertices ! nat (fst acc ! 2)) (vertices ! nat (fst acc ! 0))))
              (dot a0 a0))"
    unfolding recomputed_area_def
    using q [of 0] q [of 1] q [of 2] q [of 3]
    by (simp add: b_def deref_def)
  also have "dot a0 (sub_v (vertices ! nat (fst acc ! 1)) (vertices ! nat (fst acc ! 3))) =
      fst (snd acc ! 1) - fst (snd acc ! 3)"
  proof -
    have "fst (snd acc ! 1) = dot a0 (sub_v (vertices ! nat (fst acc ! 1)) origin)"
      "fst (snd acc ! 3) = dot a0 (sub_v (vertices ! nat (fst acc ! 3)) origin)"
      using sup [of 1] sup [of 3] by (simp_all add: proj_def)
    then show ?thesis
      by (simp only: dot_sub_right [of a0 "vertices ! nat (fst acc ! 1)" "vertices ! nat (fst acc ! 3)" origin])
  qed
  also have "dot (perp a0) (sub_v (vertices ! nat (fst acc ! 2)) (vertices ! nat (fst acc ! 0))) =
      snd (snd acc ! 2)"
    using sup [of 2] i by (simp add: proj_def origin_def)
  finally have "recomputed_area h vertices b = Some (area b)" by (simp add: b_def)
  then have "caliper_invariant h vertices b"
    by (simp add: caliper_invariant_def b_def deref_def)
  with eq wf i0 show ?thesis by (auto simp: b_def a0_def)
qed

subsection \<open>Copies of a box\<close>

lemma cloneDeep_simps [simp]:
  "index (cloneDeep h b) = index b" "sqrLenU0 (cloneDeep h b) = sqrLenU0 b"
  "area (cloneDeep h b) = area b" "u (cloneDeep h b) = map (\<lambda>r. Fresh (deref h r)) (u b)"
  by (simp_all add: cloneDeep_def)

lemma js_nth_map: "js_nth (map f xs) i = map_option f (js_nth xs i)"
  by (auto simp: js_nth_def nat_less_iff)

lemma deref_Fresh [simp]: "deref h (Fresh v) = v"
  by (simp add: deref_def)

lemma fresh_cloneDeep [simp]: "fresh_box (cloneDeep h b)"
  by (auto simp: fresh_box_def)

lemma wf_box_cloneDeep [simp]: "wf_box n (cloneDeep h b) = wf_box n b"
  by (simp add: wf_box_def)

lemma on_edge_cloneDeep [simp]: "on_edge h' vertices (cloneDeep h b) = on_edge h vertices b"
  by (simp add: on_edge_def js_nth_map option.map_comp comp_def split: option.split)

lemma recomputed_area_cloneDeep [simp]:
  "recomputed_area h' vertices (cloneDeep h b) = recomputed_area h vertices b"
  by (cases "js_nth (u b) 0"; cases "js_nth (u b) 1")
     (simp_all add: recomputed_area_def js_nth_map)

lemma caliper_invariant_cloneDeep [simp]:
  "caliper_invariant h' vertices (cloneDeep h b) = caliper_invariant h vertices b"
  by (cases "js_nth (u b) 0"; cases "js_nth (u b) 1")
     (simp_all add: caliper_invariant_def js_nth_map)

lemma fresh_js_nth:
  assumes "fresh_box b" "js_nth (u b) i = Some r"
  obtains v where "r = Fresh v"
proof -
  from assms(2) have "r \<in> set (u b)" by (auto simp: js_nth_eq_Some)
  with assms(1) have "r \<noteq> Module_u1" by (auto simp: fresh_box_def)
  then show thesis using that by (cases r) auto
qed

lemma fresh_deref:
  assumes "fresh_box b"
  shows "map_option (deref h) (js_nth (u b) i) = map_option (deref h') (js_nth (u b) i)"
proof (cases "js_nth (u b) i")
  case None
  then show ?thesis by simp
next
  case (Some r)
  with assms obtain v where "r = Fresh v" by (rule fresh_js_nth)
  with Some show ?thesis by simp
qed

lemma fresh_on_edge: "fresh_box b \<Longrightarrow> on_edge h vertices b = on_edge h' vertices b"
  unfolding on_edge_def using fresh_deref [of b h _ h'] by (simp split: option.split)

subsection \<open>The run as a whole\<close>

lemma map_fst_snd [simp]: "map (\<lambda>point. (fst point, snd point)) xs = xs"
  by (induction xs) simp_all

lemma hull_edge_0:
  "0 < length vertices \<Longrightarrow>
   hull_edge vertices 0 = sub_v (vertices ! 0) (vertices ! nat (int (length vertices) - 1))"
  by (simp add: hull_edge_def zmod_minus1)

lemma initial_total:
  assumes "caller_hull h \<noteq> []"
  shows "\<exists>s0 mb0. initial h = Inr (caller_hull h, s0, mb0) \<and> globals s0 = h \<and>
           wf_state (length (caller_hull h)) s0 \<and> wf_box (length (caller_hull h)) mb0 \<and>
           fresh_box mb0 \<and> on_edge h' (caller_hull h) mb0 \<and>
           caliper_invariant h' (caller_hull h) mb0 \<and>
           box s0 = cloneDeep h mb0"
proof -
  let ?vs = "caller_hull h"
  from assms have n: "0 < length ?vs" by simp
  then have r: "0 \<le> int (length ?vs) - 1" "int (length ?vs) - 1 < int (length ?vs)"
    "(0::int) \<le> 0" "0 < int (length ?vs)" by simp_all
  from smallestBox_shape [OF r, of h'] obtain mb where
    mb: "smallestBox (int (length ?vs) - 1) 0 ?vs = Inr mb" "wf_box (length ?vs) mb"
    "js_nth (index mb) 0 = Some 0"
    "u mb = [Fresh (sub_v (?vs ! nat 0) (?vs ! nat (int (length ?vs) - 1))),
             Fresh (perp (sub_v (?vs ! nat 0) (?vs ! nat (int (length ?vs) - 1))))]"
    "caliper_invariant h' ?vs mb" by blast
  let ?s0 = "\<lparr>globals = h, box = cloneDeep h mb, angleInfo = [None, None, None, None],
      angleNum = 0, visited = (\<lambda>_. False)(0 := True)\<rparr>"
  from mb(1,3) have "initial h = Inr (?vs, ?s0, mb)" by (simp add: initial_def)
  moreover from mb(2) have "wf_state (length ?vs) ?s0"
    by (simp add: wf_state_def wf_buffer_def)
  moreover from mb(4) have "fresh_box mb" by (simp add: fresh_box_def)
  moreover from mb(3,4) n have "on_edge h' ?vs mb"
    by (simp add: on_edge_def hull_edge_0)
  ultimately show ?thesis using mb(2,5) by simp
qed

lemma caliper_loop_result:
  assumes n: "0 < length vertices"
    and "wf_state (length vertices) s" "wf_box (length vertices) mb" "fresh_box mb"
    "on_edge h0 vertices mb" "caliper_invariant h0 vertices mb"
  shows "\<exists>s' mb'. caliper_loop rounds vertices s mb = Inr (s', mb') \<and>
           wf_box (length vertices) mb' \<and> fresh_box mb' \<and> on_edge h0 vertices mb' \<and>
           caliper_invariant h0 vertices mb'"
  using assms(2-)
proof (induction rounds arbitrary: s mb)
  case 0
  then show ?case by simp
next
  case (Suc rounds)
  from computeAngles_total [OF Suc.prems(1) n] obtain go s1 where
    c: "computeAngles vertices s = Inr (go, s1)" "wf_state (length vertices) s1"
    "angleNum s1 \<le> 4" "filled_prefix (angleInfo s1) (angleNum s1)" "go \<longleftrightarrow> 0 < angleNum s1"
    by blast
  show ?case
  proof (cases go)
    case False
    with c(1) Suc.prems show ?thesis by simp
  next
    case True
    with c(5) have pos: "0 < angleNum s1" by simp
    from c(2) have "wf_buffer (angleInfo s1)" by (simp add: wf_state_def)
    from sortAngles_candidates [OF this c(4) pos c(3)]
    have "\<forall>k<angleNum s1. \<exists>a. angle_at (angleInfo s1)
            (sortAngles (angleInfo s1) (angleNum s1)) k = Some a \<and> indexOfBox a < 4" .
    from updateSupport_total [OF c(2) n this pos] obtain go2 s2 where
      up: "updateSupport (sortAngles (angleInfo s1) (angleNum s1)) vertices s1 = Inr (go2, s2)"
      "wf_state (length vertices) s2" by blast
    show ?thesis
    proof (cases go2)
      case False
      with c(1) True up(1) Suc.prems show ?thesis by simp
    next
      case go2: True
      let ?c = "cloneDeep (globals s2) (box s2)"
      let ?mb = "if js_le (area (box s2)) (area mb) then ?c else mb"
      from up(2) have "wf_box (length vertices) ?c" by (simp add: wf_state_def)
      moreover from up(1) go2 have "on_edge h0 vertices ?c" "caliper_invariant h0 vertices ?c"
        by (simp_all add: updateSupport_true_on_edge updateSupport_true_invariant)
      ultimately have "wf_box (length vertices) ?mb" "fresh_box ?mb" "on_edge h0 vertices ?mb"
        "caliper_invariant h0 vertices ?mb"
        using Suc.prems by simp_all
      from Suc.IH [OF up(2) this] c(1) True up(1) go2 show ?thesis by simp
    qed
  qed
qed

lemma extract_rect_total:
  assumes "wf_box (length vertices) mb" "0 < length vertices"
  shows "\<exists>r0 r1 lastSupport origin q1 q2.
           js_nth (u mb) 0 = Some r0 \<and> js_nth (u mb) 1 = Some r1 \<and>
           q2 = vertices ! nat (index mb ! 2) \<and>
           extract_rect h vertices mb =
             Inr (rect_of (deref h r0) (deref h r1) lastSupport origin q1 q2
                    (vertices ! nat (index mb ! 0)))"
proof -
  from assms(1) have lu: "length (u mb) = 2" and wi: "wf_index (length vertices) (index mb)"
    by (simp_all add: wf_box_def)
  have r: "js_nth (u mb) 0 = Some (u mb ! 0)" "js_nth (u mb) 1 = Some (u mb ! 1)"
    using lu by (simp_all add: js_nth_def)
  have ix: "js_nth (index mb) (int k) = Some (index mb ! k)"
    "js_nth vertices (index mb ! k) = Some (vertices ! nat (index mb ! k))" if "k < 4" for k
    using wf_index_js_nth [OF wi that] wf_index_nth [OF wi that] by (simp_all add: js_nth_def)
  let ?o = "if index mb ! 0 - 1 = - 1 then int (length vertices) - 1 else index mb ! 0 - 1"
  have o: "js_nth vertices ?o = Some (vertices ! nat ?o)"
    using wf_index_nth [OF wi, of 0] assms(2) by (auto simp: js_nth_def)
  have "extract_rect h vertices mb =
      Inr (rect_of (deref h (u mb ! 0)) (deref h (u mb ! 1)) (vertices ! nat (index mb ! 3))
             (vertices ! nat ?o) (vertices ! nat (index mb ! 1)) (vertices ! nat (index mb ! 2))
             (vertices ! nat (index mb ! 0)))"
    unfolding extract_rect_def
    using r ix [of 0] ix [of 1] ix [of 2] ix [of 3] o by simp
  with r show ?thesis by blast
qed

lemma angle_rect_of [simp]:
  "angle (rect_of a0 a1 lastSupport origin q1 q2 q0) = atan2 (snd a0) (fst a0)"
  by (simp add: rect_of_def Let_def)

lemma height_rect_of [simp]:
  "height (rect_of a0 a1 lastSupport origin q1 q2 q0) = \<bar>dot (normalize a1) (sub_v q2 q0)\<bar>"
  by (simp add: rect_of_def Let_def)

text \<open>
  The run of \<open>rotatingCaliper\<close> on a hull that is not empty: nothing throws, and the best
  box at the end of the loop is well-formed, owns its vectors, lies on a polygon edge and
  satisfies the invariant.
\<close>

lemma run_total:
  assumes "caller_hull h \<noteq> []"
  obtains s0 mb0 s mb r0 r1 lastSupport origin q1 where
    "initial h = Inr (caller_hull h, s0, mb0)"
    "caliper_loop (length (caller_hull h)) (caller_hull h) s0 mb0 = Inr (s, mb)"
    "wf_box (length (caller_hull h)) mb" "fresh_box mb" "on_edge h (caller_hull h) mb"
    "js_nth (u mb) 0 = Some r0" "js_nth (u mb) 1 = Some r1"
    "rotatingCaliper h =
       Inr (globals s,
            rect_of (deref (globals s) r0) (deref (globals s) r1) lastSupport origin q1
              (caller_hull h ! nat (index mb ! 2)) (caller_hull h ! nat (index mb ! 0)))"
proof -
  let ?vs = "caller_hull h"
  from assms have n: "0 < length ?vs" by simp
  from initial_total [OF assms, of h] obtain s0 mb0 where
    i: "initial h = Inr (?vs, s0, mb0)" "wf_state (length ?vs) s0" "wf_box (length ?vs) mb0"
    "fresh_box mb0" "on_edge h ?vs mb0" "caliper_invariant h ?vs mb0" by blast
  from caliper_loop_result [OF n i(2-6), of "length ?vs"] obtain s mb where
    l: "caliper_loop (length ?vs) ?vs s0 mb0 = Inr (s, mb)" "wf_box (length ?vs) mb"
    "fresh_box mb" "on_edge h ?vs mb" by blast
  from extract_rect_total [OF l(2) n, of "globals s"] obtain r0 r1 lastSupport origin q1 where
    e: "js_nth (u mb) 0 = Some r0" "js_nth (u mb) 1 = Some r1"
    "extract_rect (globals s) ?vs mb =
       Inr (rect_of (deref (globals s) r0) (deref (globals s) r1) lastSupport origin q1
              (?vs ! nat (index mb ! 2)) (?vs ! nat (index mb ! 0)))" by blast
  from i(1) l(1) e(3) have "rotatingCaliper h =
       Inr (globals s,
            rect_of (deref (globals s) r0) (deref (globals s) r1) lastSupport origin q1
              (?vs ! nat (index mb ! 2)) (?vs ! nat (index mb ! 0)))"
    by (simp add: rotatingCaliper_def)
  with i(1) l e(1,2) show thesis by (rule that)
qed

lemma rotatingCaliper_returns:
  assumes "caller_hull h \<noteq> []"
  shows "\<exists>h' r. rotatingCaliper h = Inr (h', r)"
  using assms by (rule run_total) blast

lemma on_edge_fresh:
  assumes "on_edge h vertices b" "fresh_box b"
  obtains i where "0 \<le> i" "i < int (length vertices)" "js_nth (index b) 0 = Some i"
    "js_nth (u b) 0 = Some (Fresh (hull_edge vertices i))"
    "js_nth (u b) 1 = Some (Fresh (perp (hull_edge vertices i)))"
proof -
  from assms(1) obtain i r0 r1 where
    i: "js_nth (index b) 0 = Some i" "0 \<le> i" "i < int (length vertices)"
    and r: "js_nth (u b) 0 = Some r0" "deref h r0 = hull_edge vertices i"
    "js_nth (u b) 1 = Some r1" "deref h r1 = perp (hull_edge vertices i)"
    by (auto simp: on_edge_def split: option.splits)
  from assms(2) r(1) obtain v0 where "r0 = Fresh v0" by (rule fresh_js_nth)
  moreover from assms(2) r(3) obtain v1 where "r1 = Fresh v1" by (rule fresh_js_nth)
  ultimately show thesis using i r by (intro that [of i]) simp_all
qed

text \<open>
  Claim C9: for every input that is not empty (so for every valid input), the run
  returns, and the best box at the end of the loop has as its \<open>u[0]\<close> the polygon edge
  \<open>vertex[i] - vertex[i - 1 mod n]\<close> that ends in its bottom support \<open>i = index[0]\<close>; the
  returned angle is the direction of that edge, so one side of the returned rectangle is
  parallel to it.
\<close>

theorem C9_best_box_on_hull_edge:
  assumes "caller_hull h \<noteq> []"
  shows "\<exists>s0 mb0 s mb i h' r.
     initial h = Inr (caller_hull h, s0, mb0) \<and>
     caliper_loop (length (caller_hull h)) (caller_hull h) s0 mb0 = Inr (s, mb) \<and>
     rotatingCaliper h = Inr (h', r) \<and>
     0 \<le> i \<and> i < int (length (caller_hull h)) \<and>
     js_nth (index mb) 0 = Some i \<and>
     js_nth (u mb) 0 = Some (Fresh (hull_edge (caller_hull h) i)) \<and>
     angle r = atan2 (snd (hull_edge (caller_hull h) i)) (fst (hull_edge (caller_hull h) i))"
  using assms
proof (rule run_total)
  fix s0 mb0 s mb r0 r1 lastSupport origin q1
  assume a: "initial h = Inr (caller_hull h, s0, mb0)"
    "caliper_loop (length (caller_hull h)) (caller_hull h) s0 mb0 = Inr (s, mb)"
    "fresh_box mb" "on_edge h (caller_hull h) mb" "js_nth (u mb) 0 = Some r0"
    "rotatingCaliper h =
       Inr (globals s,
            rect_of (deref (globals s) r0) (deref (globals s) r1) lastSupport origin q1
              (caller_hull h ! nat (index mb ! 2)) (caller_hull h ! nat (index mb ! 0)))"
  from a(4,3) obtain i where
    i: "0 \<le> i" "i < int (length (caller_hull h))" "js_nth (index mb) 0 = Some i"
    "js_nth (u mb) 0 = Some (Fresh (hull_edge (caller_hull h) i))"
    by (rule on_edge_fresh)
  with a(5) have "deref (globals s) r0 = hull_edge (caller_hull h) i" by auto
  with a(1,2,6) i show ?thesis by simp
qed


theorem C9_witness:
  "caller_hull 
       \<lparr>caller_hull = [(0, 0), (4, 0), (0, 3)], perpE = (0, 0), u1 = (0, 0)\<rparr> \<noteq> [] \<and>
   (\<exists>s0 mb0 s mb i h' r.
     initial 
       \<lparr>caller_hull = [(0, 0), (4, 0), (0, 3)], perpE = (0, 0), u1 = (0, 0)\<rparr> = Inr (caller_hull 
       \<lparr>caller_hull = [(0, 0), (4, 0), (0, 3)], perpE = (0, 0), u1 = (0, 0)\<rparr>, s0, mb0) \<and>
     caliper_loop (length (caller_hull 
       \<lparr>caller_hull = [(0, 0), (4, 0), (0, 3)], perpE = (0, 0), u1 = (0, 0)\<rparr>)) (caller_hull 
       \<lparr>caller_hull = [(0, 0), (4, 0), (0, 3)], perpE = (0, 0), u1 = (0, 0)\<rparr>) s0 mb0 = Inr (s, mb) \<and>
     rotatingCaliper 
       \<lparr>caller_hull = [(0, 0), (4, 0), (0, 3)], perpE = (0, 0), u1 = (0, 0)\<rparr> = Inr (h', r) \<and>
     0 \<le> i \<and> i < int (length (caller_hull 
       \<lparr>caller_hull = [(0, 0), (4, 0), (0, 3)], perpE = (0, 0), u1 = (0, 0)\<rparr>)) \<and>
     js_nth (index mb) 0 = Some i \<and>
     js_nth (u mb) 0 = Some (Fresh (hull_edge (caller_hull 
       \<lparr>caller_hull = [(0, 0), (4, 0), (0, 3)], perpE = (0, 0), u1 = (0, 0)\<rparr>) i)) \<and>
     angle r = atan2 (snd (hull_edge (caller_hull 
       \<lparr>caller_hull = [(0, 0), (4, 0), (0, 3)], perpE = (0, 0), u1 = (0, 0)\<rparr>) i)) (fst (hull_edge (caller_hull 
       \<lparr>caller_hull = [(0, 0), (4, 0), (0, 3)], perpE = (0, 0), u1 = (0, 0)\<rparr>) i)))"
proof -
  have ne: "caller_hull 
       \<lparr>caller_hull = [(0, 0), (4, 0), (0, 3)], perpE = (0, 0), u1 = (0, 0)\<rparr> \<noteq> []"
    by simp
  from ne C9_best_box_on_hull_edge [OF ne] show ?thesis by (rule conjI)
qed

theorem C6_witness:
  "(0::int) \<le> 3 \<and> (3::int) < int (length [(0, 0), (2, 0), (2, 2), (0::real, 2::real)]) \<and>
   (0::int) \<le> 0 \<and> (0::int) < int (length [(0, 0), (2, 0), (2, 2), (0::real, 2::real)]) \<and>
   (\<exists>j1 j2 j3 ar.
      smallestBox 3 0 [(0, 0), (2, 0), (2, 2), (0, 2)] =
        Inr \<lparr>u = [Fresh (0, - 2), Fresh (2, 0)], index = [0, j1, j2, j3], sqrLenU0 = 4,
             area = ar\<rparr>)"
  using C6_smallestBox_supports [of 3 "[(0, 0), (2, 0), (2, 2), (0, 2)]" 0]
  by (auto simp: sub_v_def perp_def dot_def)

lemma finish_update_false:
  assumes "finish_update srt vertices s minAngle idx parallel = Inr (False, s')"
  shows "s' = s\<lparr>box := (box s)\<lparr>index := idx\<rparr>\<rparr>"
proof -
  from assms obtain bottom where
    r: "(if visited s bottom then Inr (False, s\<lparr>box := (box s)\<lparr>index := idx\<rparr>\<rparr>)
      else
        ebind (mark_visited (angleInfo s) srt idx [0..<parallel] (visited s)) (\<lambda>vis.
        ebind (cycle_index idx (indexOfBox minAngle) [0, 1, 2, 3]) (\<lambda>nextIndex.
        ebind (defined (js_nth nextIndex 0)) (\<lambda>j1.
        ebind (defined (js_nth vertices j1)) (\<lambda>p1.
        ebind (defined (js_nth vertices
                 (if j1 - 1 < 0 then int (length vertices) - 1 else j1 - 1))) (\<lambda>p0.
        ebind (defined (js_nth nextIndex 1)) (\<lambda>i1.
        ebind (defined (js_nth vertices i1)) (\<lambda>q1.
        ebind (defined (js_nth nextIndex 3)) (\<lambda>i3.
        ebind (defined (js_nth vertices i3)) (\<lambda>q3.
        ebind (defined (js_nth nextIndex 2)) (\<lambda>i2.
        ebind (defined (js_nth vertices i2)) (\<lambda>q2.
          Inr (True,
               rebase (s\<lparr>box := (box s)\<lparr>index := idx\<rparr>\<rparr>) vis nextIndex
                 p1 p0 q1 q2 q3))))))))))))) = Inr (False, s')"
    unfolding finish_update_def by (elim ebindE) simp
  show ?thesis
  proof (cases "visited s bottom")
    case True
    with r show ?thesis by simp
  next
    case False
    with r have False
      by (simp only: if_False) (elim ebindE, simp)
    then show ?thesis ..
  qed
qed

lemma updateSupport_frame:
  assumes "updateSupport srt vertices s = Inr (go, s')"
  shows "caller_hull (globals s') = caller_hull (globals s)" "perpE (globals s') = perpE (globals s)"
    "angleInfo s' = angleInfo s" "angleNum s' = angleNum s"
proof -
  have "caller_hull (globals s') = caller_hull (globals s) \<and> perpE (globals s') = perpE (globals s) \<and>
      angleInfo s' = angleInfo s \<and> angleNum s' = angleNum s"
  proof (cases go)
    case True
    with assms have "updateSupport srt vertices s = Inr (True, s')" by simp
    then show ?thesis by (rule updateSupport_true) simp
  next
    case False
    with assms have "updateSupport srt vertices s = Inr (False, s')" by simp
    then obtain minAngle idx parallel where
      "finish_update srt vertices s minAngle idx parallel = Inr (False, s')"
      unfolding updateSupport_eq_Inr by blast
    from finish_update_false [OF this] show ?thesis by simp
  qed
  then show "caller_hull (globals s') = caller_hull (globals s)"
    "perpE (globals s') = perpE (globals s)" "angleInfo s' = angleInfo s" "angleNum s' = angleNum s"
    by simp_all
qed

lemma caliper_loop_frame:
  assumes "caliper_loop rounds vertices s mb = Inr (s', mb')"
  shows "caller_hull (globals s') = caller_hull (globals s)"
  using assms
proof (induction rounds arbitrary: s mb)
  case 0
  then show ?case by simp
next
  case (Suc rounds)
  from Suc.prems obtain go s1 where c: "computeAngles vertices s = Inr (go, s1)"
    by (auto split: sum.splits)
  note f1 = computeAngles_frame(1) [OF c]
  show ?case
  proof (cases go)
    case False
    with Suc.prems c f1 show ?thesis by simp
  next
    case True
    with Suc.prems c obtain go2 s2 where
      up: "updateSupport (sortAngles (angleInfo s1) (angleNum s1)) vertices s1 = Inr (go2, s2)"
      by (auto split: sum.splits)
    note f2 = updateSupport_frame(1) [OF up]
    show ?thesis
    proof (cases go2)
      case False
      with Suc.prems c True up f1 f2 show ?thesis by simp
    next
      case go2: True
      with Suc.prems c True up have "caliper_loop rounds vertices s2
          (if js_le (area (box s2)) (area mb) then cloneDeep (globals s2) (box s2) else mb)
          = Inr (s', mb')" by simp
      from Suc.IH [OF this] f1 f2 show ?thesis by simp
    qed
  qed
qed

lemma initial_Inr:
  assumes "initial h = Inr (vertices, s0, mb0)"
  shows "vertices = caller_hull h" "globals s0 = h" "angleInfo s0 = [None, None, None, None]"
    "box s0 = cloneDeep h mb0"
  using assms unfolding initial_def Let_def by (auto elim!: ebindE)

text \<open>
  Claim C10: \<open>rotatingCaliper\<close> does not change the array its argument refers to:
  when the call returns, the caller's array of coordinate pairs is what it was.
\<close>

theorem C10_argument_unchanged:
  assumes "rotatingCaliper h = Inr (h', r)"
  shows "caller_hull h' = caller_hull h"
proof -
  from assms obtain vertices s0 mb0 s mb where
    i: "initial h = Inr (vertices, s0, mb0)"
    and l: "caliper_loop (length vertices) vertices s0 mb0 = Inr (s, mb)"
    and h': "h' = globals s"
    unfolding rotatingCaliper_def by (auto elim!: ebindE)
  from caliper_loop_frame [OF l] initial_Inr(2) [OF i] h' show ?thesis by simp
qed


theorem C10_witness:
  "rotatingCaliper \<lparr>caller_hull = [(0, 0), (2, 0), (2, 2), (0, 2)], perpE = (0, 0), u1 = (0, 0)\<rparr> =
     Inr (\<lparr>caller_hull = [(0, 0), (2, 0), (2, 2), (0, 2)], perpE = (0, - 2), u1 = (0, 0)\<rparr>,
          \<lparr>width = 2, height = 2, center = (1, 1), angle = - (pi / 2)\<rparr>) \<and>
   caller_hull \<lparr>caller_hull = [(0, 0), (2, 0), (2, 2), (0, 2)], perpE = (0, - 2), u1 = (0, 0)\<rparr> =
     caller_hull \<lparr>caller_hull = [(0, 0), (2, 0), (2, 2), (0, 2)], perpE = (0, 0), u1 = (0, 0)\<rparr>"
proof -
  have run: "rotatingCaliper \<lparr>caller_hull = [(0, 0), (2, 0), (2, 2), (0, 2)], perpE = (0, 0), u1 = (0, 0)\<rparr> =
     Inr (\<lparr>caller_hull = [(0, 0), (2, 0), (2, 2), (0, 2)], perpE = (0, - 2), u1 = (0, 0)\<rparr>,
          \<lparr>width = 2, height = 2, center = (1, 1), angle = - (pi / 2)\<rparr>)"
    by (simp add: run_defs vec_defs cong: let_weak_cong ebind_weak_cong)
  from run C10_argument_unchanged [OF run] show ?thesis by (rule conjI)
qed

text \<open>
  Claim C1, amended: \<open>rotatingCaliper\<close> does not validate the size of its input. On an
  empty input it fails with the \<open>TypeError\<close> of reading an undefined vertex; on every
  input of one or two points it throws nothing and returns a rectangle.
\<close>

theorem C1_small_inputs:
  "(caller_hull h = [] \<longrightarrow> rotatingCaliper h = Inl TypeError) \<and>
   (length (caller_hull h) = 1 \<or> length (caller_hull h) = 2 \<longrightarrow>
      (\<exists>h' r. rotatingCaliper h = Inr (h', r)))"
proof (intro conjI impI)
  assume "caller_hull h = []"
  then show "rotatingCaliper h = Inl TypeError"
    by (simp add: rotatingCaliper_def initial_def smallestBox_def js_nth_def defined_def)
next
  assume "length (caller_hull h) = 1 \<or> length (caller_hull h) = 2"
  then have "caller_hull h \<noteq> []" by auto
  then show "\<exists>h' r. rotatingCaliper h = Inr (h', r)" by (rule rotatingCaliper_returns)
qed

theorem C1_witness:
  "caller_hull \<lparr>caller_hull = [], perpE = (0, 0), u1 = (0, 0)\<rparr> = [] \<and>
   rotatingCaliper \<lparr>caller_hull = [], perpE = (0, 0), u1 = (0, 0)\<rparr> = Inl TypeError \<and>
   (length (caller_hull \<lparr>caller_hull = [(0, 0), (1, 0)], perpE = (0, 0), u1 = (0, 0)\<rparr>) = 1 \<or>
    length (caller_hull \<lparr>caller_hull = [(0, 0), (1, 0)], perpE = (0, 0), u1 = (0, 0)\<rparr>) = 2) \<and>
   (\<exists>h' r. rotatingCaliper \<lparr>caller_hull = [(0, 0), (1, 0)], perpE = (0, 0), u1 = (0, 0)\<rparr> = Inr (h', r))"
  using C1_small_inputs [of "\<lparr>caller_hull = [], perpE = (0, 0), u1 = (0, 0)\<rparr>"]
    C1_small_inputs [of "\<lparr>caller_hull = [(0, 0), (1, 0)], perpE = (0, 0), u1 = (0, 0)\<rparr>"]
  by simp




subsection \<open>A run does not see what the module-level vectors hold at its start\<close>

lemma ebind_rel:
  assumes "rel_sum (=) R m m'" "\<And>x y. R x y \<Longrightarrow> rel_sum (=) Q (f x) (g y)"
  shows "rel_sum (=) Q (ebind m f) (ebind m' g)"
  using assms by (cases m; cases m') simp_all

lemma ebind_rel_eq:
  assumes "\<And>x. rel_sum (=) Q (f x) (g x)"
  shows "rel_sum (=) Q (ebind m f) (ebind m g)"
  using assms by (cases m) simp_all

lemma js_nth_mem: "js_nth xs i = Some r \<Longrightarrow> r \<in> set xs"
  unfolding js_nth_eq_Some by (metis nat_less_iff nth_mem)

lemma same_view_refl [simp]: "same_view s s"
  by (simp add: same_view_def)

lemma same_view_deref:
  assumes "same_view s t" "js_nth (u (box s)) i = Some r"
  shows "deref (globals s) r = deref (globals t) r"
proof (cases r)
  case (Fresh v)
  then show ?thesis by simp
next
  case Module_u1
  with assms(2) have "Module_u1 \<in> set (u (box s))" by (auto dest: js_nth_mem)
  with assms(1) Module_u1 show ?thesis by (simp add: same_view_def deref_def)
qed

lemma same_view_cloneDeep:
  assumes "same_view s t"
  shows "cloneDeep (globals s) (box s) = cloneDeep (globals t) (box t)"
proof -
  have "deref (globals s) r = deref (globals t) r" if "r \<in> set (u (box s))" for r
  proof -
    from that obtain i where "i < length (u (box s))" "u (box s) ! i = r"
      by (auto simp: in_set_conv_nth)
    then have "js_nth (u (box s)) (int i) = Some r" by (simp add: js_nth_def)
    with assms show ?thesis by (rule same_view_deref)
  qed
  with assms show ?thesis by (simp add: cloneDeep_def same_view_def)
qed

lemma negate_ref_view:
  assumes "same_view s t"
  shows "rel_sum (=) same_view (negate_ref k s) (negate_ref k t)"
proof (cases "js_nth (u (box s)) (int k)")
  case None
  with assms show ?thesis by (simp add: negate_ref_def same_view_def)
next
  case (Some r)
  show ?thesis
  proof (cases r)
    case (Fresh v)
    have "Module_u1 \<in> set (u (box s))" if "Module_u1 \<in> set ((u (box s))[k := Fresh (negate v)])"
      using that set_update_subset_insert [of "u (box s)" k "Fresh (negate v)"] by auto
    with assms Some Fresh show ?thesis by (auto simp: negate_ref_def same_view_def)
  next
    case Module_u1
    with Some have "Module_u1 \<in> set (u (box s))" by (auto dest: js_nth_mem)
    with assms Some Module_u1 show ?thesis by (simp add: negate_ref_def same_view_def)
  qed
qed

lemma record_angle_view:
  assumes "same_view s t"
  shows "same_view (record_angle s k0 d p1 p0) (record_angle t k0 d p1 p0)"
  using assms by (simp add: same_view_def record_angle_buffer)

lemma candidate_view:
  assumes "same_view s t"
  shows "rel_sum (=) same_view (candidate vertices s k0) (candidate vertices t k0)"
proof -
  have first: "rel_sum (=) same_view
      (if k0 AND 2 \<noteq> 0 then negate_ref (k0 AND 1) s else Inr s)
      (if k0 AND 2 \<noteq> 0 then negate_ref (k0 AND 1) t else Inr t)"
    using assms negate_ref_view [OF assms] by simp
  have rest: "rel_sum (=) same_view
      (ebind (defined (js_nth (u (box s1)) (int (k0 AND 1)))) (\<lambda>r.
       ebind (defined (js_nth (index (box s1)) (int k0))) (\<lambda>j0.
       ebind (defined (js_nth vertices (if j0 + 1 = int (length vertices) then 0 else j0 + 1)))
         (\<lambda>p1.
       ebind (defined (js_nth vertices j0)) (\<lambda>p0.
         Inr (record_angle s1 k0 (deref (globals s1) r) p1 p0))))))
      (ebind (defined (js_nth (u (box t1)) (int (k0 AND 1)))) (\<lambda>r.
       ebind (defined (js_nth (index (box t1)) (int k0))) (\<lambda>j0.
       ebind (defined (js_nth vertices (if j0 + 1 = int (length vertices) then 0 else j0 + 1)))
         (\<lambda>p1.
       ebind (defined (js_nth vertices j0)) (\<lambda>p0.
         Inr (record_angle t1 k0 (deref (globals t1) r) p1 p0))))))"
    if v: "same_view s1 t1" for s1 t1
  proof -
    from v have b: "box t1 = box s1" by (simp add: same_view_def)
    show ?thesis
    proof (cases "js_nth (u (box s1)) (int (k0 AND 1))")
      case None
      then show ?thesis by (simp add: b defined_def)
    next
      case (Some r)
      from same_view_deref [OF v Some] have d: "deref (globals t1) r = deref (globals s1) r" by simp
      show ?thesis
        unfolding b Some defined_Some ebind_Inr d
        by (intro ebind_rel_eq) (simp add: record_angle_view [OF v])
    qed
  qed
  show ?thesis unfolding candidate_def by (rule ebind_rel [OF first rest])
qed

lemma angle_side_view:
  assumes "same_view s t"
  shows "rel_sum (=) same_view (angle_side vertices s kk) (angle_side vertices t kk)"
proof -
  from assms have "box t = box s" by (simp add: same_view_def)
  with assms candidate_view [OF assms] show ?thesis by (simp add: angle_side_def)
qed

lemma run_sides_view:
  assumes "same_view s t"
  shows "rel_sum (=) same_view (run_sides vertices kks s) (run_sides vertices kks t)"
  using assms
proof (induction kks arbitrary: s t)
  case Nil
  then show ?case by simp
next
  case (Cons kk kks)
  show ?case
    unfolding run_sides.simps
    by (rule ebind_rel [OF angle_side_view [OF Cons.prems]]) (rule Cons.IH)
qed

lemma computeAngles_view:
  assumes "same_view s t"
  shows "rel_sum (=) (rel_prod (=) same_view) (computeAngles vertices s) (computeAngles vertices t)"
proof -
  from assms have "same_view (s\<lparr>angleNum := 0\<rparr>) (t\<lparr>angleNum := 0\<rparr>)"
    by (simp add: same_view_def)
  from run_sides_view [OF this] show ?thesis
    unfolding computeAngles_def
    by (rule ebind_rel) (simp add: same_view_def)
qed

lemma rebase_view:
  assumes "box t = box s" "caller_hull (globals t) = caller_hull (globals s)"
    "angleInfo t = angleInfo s" "angleNum t = angleNum s"
  shows "same_view (rebase s vis nextIndex p1 p0 q1 q2 q3) (rebase t vis nextIndex p1 p0 q1 q2 q3)"
  using assms by (simp add: same_view_def rebase_def Let_def)

lemma finish_update_view:
  assumes "same_view s t"
  shows "rel_sum (=) (rel_prod (=) same_view)
           (finish_update srt vertices s minAngle idx parallel)
           (finish_update srt vertices t minAngle idx parallel)"
proof -
  from assms have eq: "box t = box s" "angleInfo t = angleInfo s" "angleNum t = angleNum s"
    "visited t = visited s" "caller_hull (globals t) = caller_hull (globals s)"
    by (simp_all add: same_view_def)
  have f: "same_view (s\<lparr>box := (box s)\<lparr>index := idx\<rparr>\<rparr>) (t\<lparr>box := (box s)\<lparr>index := idx\<rparr>\<rparr>)"
    using assms by (simp add: same_view_def)
  have r: "same_view (rebase (s\<lparr>box := (box s)\<lparr>index := idx\<rparr>\<rparr>) vis nextIndex p1 p0 q1 q2 q3)
      (rebase (t\<lparr>box := (box s)\<lparr>index := idx\<rparr>\<rparr>) vis nextIndex p1 p0 q1 q2 q3)"
    for vis nextIndex p1 p0 q1 q2 q3
    by (rule rebase_view) (simp_all add: eq)
  show ?thesis
    unfolding finish_update_def eq
    by (rule ebind_rel_eq, simp add: f, intro impI ebind_rel_eq, simp add: r)
qed

lemma updateSupport_view:
  assumes "same_view s t"
  shows "rel_sum (=) (rel_prod (=) same_view)
           (updateSupport srt vertices s) (updateSupport srt vertices t)"
proof -
  from assms have eq: "box t = box s" "angleInfo t = angleInfo s" "angleNum t = angleNum s"
    by (simp_all add: same_view_def)
  show ?thesis
    unfolding updateSupport_def eq
    by (intro ebind_rel_eq finish_update_view [OF assms])
qed

lemma caliper_loop_view:
  assumes "same_view s t"
  shows "rel_sum (=) (rel_prod same_view (=))
           (caliper_loop rounds vertices s mb) (caliper_loop rounds vertices t mb)"
  using assms
proof (induction rounds arbitrary: s t mb)
  case 0
  then show ?case by simp
next
  case (Suc rounds)
  note c = computeAngles_view [OF Suc.prems, of vertices]
  show ?case
  proof (cases "computeAngles vertices s")
    case (Inl e)
    with c show ?thesis by (cases "computeAngles vertices t") simp_all
  next
    case (Inr gs)
    obtain go s1 where gs: "gs = (go, s1)" by (cases gs)
    with Inr c obtain t1 where t1: "computeAngles vertices t = Inr (go, t1)" "same_view s1 t1"
      by (cases "computeAngles vertices t") auto
    from t1(2) have eq: "angleInfo t1 = angleInfo s1" "angleNum t1 = angleNum s1"
      by (simp_all add: same_view_def)
    note up = updateSupport_view [OF t1(2), of "sortAngles (angleInfo s1) (angleNum s1)" vertices]
    show ?thesis
    proof (cases go)
      case False
      with Inr gs t1 show ?thesis by simp
    next
      case True
      show ?thesis
      proof (cases "updateSupport (sortAngles (angleInfo s1) (angleNum s1)) vertices s1")
        case (Inl e)
        with up have "updateSupport (sortAngles (angleInfo s1) (angleNum s1)) vertices t1 = Inl e"
          by (cases "updateSupport (sortAngles (angleInfo s1) (angleNum s1)) vertices t1") simp_all
        with Inl Inr gs t1(1) True show ?thesis by (simp add: eq)
      next
        case r2: (Inr gs2)
        obtain go2 s2 where gs2: "gs2 = (go2, s2)" by (cases gs2)
        with r2 up obtain t2 where
          t2: "updateSupport (sortAngles (angleInfo s1) (angleNum s1)) vertices t1 = Inr (go2, t2)"
          "same_view s2 t2"
          by (cases "updateSupport (sortAngles (angleInfo s1) (angleNum s1)) vertices t1") auto
        show ?thesis
        proof (cases go2)
          case False
          with Inr gs t1(1) True r2 gs2 t2 show ?thesis by (simp add: eq)
        next
          case go2: True
          from t2(2) have b: "area (box t2) = area (box s2)" by (simp add: same_view_def)
          from Suc.IH [OF t2(2)] Inr gs t1(1) True r2 gs2 t2(1) go2 show ?thesis
            by (simp add: eq b same_view_cloneDeep [OF t2(2)])
        qed
      qed
    qed
  qed
qed

lemma caliper_loop_fresh:
  assumes "caliper_loop rounds vertices s mb = Inr (s', mb')" "fresh_box mb"
  shows "fresh_box mb'"
  using assms
proof (induction rounds arbitrary: s mb)
  case 0
  then show ?case by simp
next
  case (Suc rounds)
  from Suc.prems(1) obtain go s1 where c: "computeAngles vertices s = Inr (go, s1)"
    by (auto split: sum.splits)
  show ?case
  proof (cases go)
    case False
    with Suc.prems c show ?thesis by simp
  next
    case True
    with Suc.prems c obtain go2 s2 where
      up: "updateSupport (sortAngles (angleInfo s1) (angleNum s1)) vertices s1 = Inr (go2, s2)"
      by (auto split: sum.splits)
    show ?thesis
    proof (cases go2)
      case False
      with Suc.prems c True up show ?thesis by simp
    next
      case go2: True
      let ?mb = "if js_le (area (box s2)) (area mb) then cloneDeep (globals s2) (box s2) else mb"
      from Suc.prems c True up go2 have "caliper_loop rounds vertices s2 ?mb = Inr (s', mb')"
        by simp
      moreover from Suc.prems(2) have "fresh_box ?mb" by simp
      ultimately show ?thesis by (rule Suc.IH)
    qed
  qed
qed

lemma fresh_cloneDeep_eq:
  assumes "fresh_box b"
  shows "cloneDeep h b = cloneDeep h' b"
proof -
  have "deref h r = deref h' r" if "r \<in> set (u b)" for r
  proof (cases r)
    case (Fresh v)
    then show ?thesis by simp
  next
    case Module_u1
    with that assms show ?thesis by (simp add: fresh_box_def)
  qed
  then show ?thesis by (simp add: cloneDeep_def)
qed

lemma fresh_extract_rect:
  assumes "fresh_box b"
  shows "extract_rect h vertices b = extract_rect h' vertices b"
proof -
  have d: "deref h r = deref h' r" if "js_nth (u b) i = Some r" for r i
    using assms that by (rule fresh_js_nth) simp
  show ?thesis
  proof (cases "js_nth (u b) 0")
    case None
    then show ?thesis by (simp add: extract_rect_def defined_def)
  next
    case r0: (Some r0)
    show ?thesis
    proof (cases "js_nth (u b) 1")
      case None
      with r0 show ?thesis by (simp add: extract_rect_def defined_def)
    next
      case (Some r1)
      with r0 d [OF r0] d [OF Some] show ?thesis by (simp add: extract_rect_def)
    qed
  qed
qed

lemma smallestBox_fresh:
  assumes "smallestBox i0 i1 vertices = Inr b"
  shows "fresh_box b"
  using assms unfolding smallestBox_def Let_def
  by (elim ebindE) (auto simp: fresh_box_def)

lemma initial_cases:
  obtains (throws) e where
      "smallestBox (int (length (caller_hull h)) - 1) 0 (caller_hull h) = Inl e"
      "initial h = Inl e"
  | (no_slot) mb where
      "smallestBox (int (length (caller_hull h)) - 1) 0 (caller_hull h) = Inr mb"
      "js_nth (index mb) 0 = None" "initial h = Inl Undefined_slot"
  | (starts) mb j where
      "smallestBox (int (length (caller_hull h)) - 1) 0 (caller_hull h) = Inr mb"
      "js_nth (index mb) 0 = Some j"
      "initial h = Inr (caller_hull h,
         \<lparr>globals = h, box = cloneDeep h mb, angleInfo = [None, None, None, None],
          angleNum = 0, visited = (\<lambda>_. False)(j := True)\<rparr>, mb)"
proof (cases "smallestBox (int (length (caller_hull h)) - 1) 0 (caller_hull h)")
  case (Inl e)
  then show ?thesis by (intro throws [of e]) (simp_all add: initial_def)
next
  case (Inr mb)
  show ?thesis
  proof (cases "js_nth (index mb) 0")
    case None
    with Inr show ?thesis by (intro no_slot [of mb]) (simp_all add: initial_def slot_def)
  next
    case (Some j)
    with Inr show ?thesis by (intro starts [of mb j]) (simp_all add: initial_def)
  qed
qed

lemma loop_then_extract:
  "map_sum id snd
     (ebind (caliper_loop rounds vertices s0 mb0) (\<lambda>(s, mb).
      ebind (extract_rect (globals s) vertices mb) (\<lambda>r. Inr (globals s, r)))) =
   ebind (caliper_loop rounds vertices s0 mb0) (\<lambda>(s, mb). extract_rect (globals s) vertices mb)"
proof (cases "caliper_loop rounds vertices s0 mb0")
  case (Inl e)
  then show ?thesis by simp
next
  case (Inr sm)
  obtain s mb where "sm = (s, mb)" by (cases sm)
  with Inr show ?thesis by (cases "extract_rect (globals s) vertices mb") simp_all
qed

text \<open>
  Claim C5, as the specification states it (the scratch vectors are owned by one
  invocation and are not process-wide), fails: \<open>perpE\<close> and \<open>u1\<close> are objects of the
  module, and a call leaves in them what it last wrote. After the call on the right
  triangle \<open>[(0,0),(4,0),(0,3)]\<close> they hold \<open>(3, 0)\<close> and \<open>(0, -4)\<close>, the second being the
  \<open>u[1]\<close> axis of the working box of that call.
\<close>

theorem C5_counterexample:
  "map_sum id fst
     (rotatingCaliper \<lparr>caller_hull = [(0, 0), (4, 0), (0, 3)], perpE = (0, 0), u1 = (0, 0)\<rparr>) =
   Inr \<lparr>caller_hull = [(0, 0), (4, 0), (0, 3)], perpE = (3, 0), u1 = (0, - 4)\<rparr>"
  by (simp add: run_defs vec_defs cong: let_weak_cong ebind_weak_cong)

text \<open>
  Claim C5, amended: \<open>perpE\<close> and \<open>u1\<close> are objects of the module, shared by all
  invocations; what an invocation returns (the rectangle, or the exception) does not
  depend on what the two objects hold when it starts.
\<close>

theorem C5_result_independent_of_module_state:
  "map_sum id snd (rotatingCaliper (h\<lparr>perpE := p, u1 := q\<rparr>)) = map_sum id snd (rotatingCaliper h)"
proof -
  let ?h2 = "h\<lparr>perpE := p, u1 := q\<rparr>"
  let ?vs = "caller_hull h"
  have ch: "caller_hull ?h2 = ?vs" by simp
  show ?thesis
  proof (cases h rule: initial_cases)
    case (throws e)
    moreover from throws(1) have "initial ?h2 = Inl e" by (simp add: initial_def)
    ultimately show ?thesis by (simp add: rotatingCaliper_def)
  next
    case (no_slot mb)
    moreover from no_slot(1,2) have "initial ?h2 = Inl Undefined_slot"
      by (simp add: initial_def slot_def)
    ultimately show ?thesis by (simp add: rotatingCaliper_def)
  next
    case (starts mb j)
    let ?s0 = "\<lparr>globals = h, box = cloneDeep h mb, angleInfo = [None, None, None, None],
          angleNum = 0, visited = (\<lambda>_. False)(j := True)\<rparr>"
    let ?t0 = "\<lparr>globals = ?h2, box = cloneDeep ?h2 mb, angleInfo = [None, None, None, None],
          angleNum = 0, visited = (\<lambda>_. False)(j := True)\<rparr>"
    from starts(1,2) have i2: "initial ?h2 = Inr (?vs, ?t0, mb)" by (simp add: initial_def)
    from starts(1) have fr: "fresh_box mb" by (rule smallestBox_fresh)
    have "Module_u1 \<notin> set (u (cloneDeep h mb))" using fresh_cloneDeep [of h mb]
      unfolding fresh_box_def .
    with fresh_cloneDeep_eq [OF fr, of h ?h2] have v: "same_view ?s0 ?t0"
      by (simp add: same_view_def)
    note l = caliper_loop_view [OF v, of "length ?vs" ?vs mb]
    have "ebind (caliper_loop (length ?vs) ?vs ?s0 mb) (\<lambda>(s, mb). extract_rect (globals s) ?vs mb) =
        ebind (caliper_loop (length ?vs) ?vs ?t0 mb) (\<lambda>(s, mb). extract_rect (globals s) ?vs mb)"
    proof (cases "caliper_loop (length ?vs) ?vs ?s0 mb")
      case (Inl e)
      with l show ?thesis by (cases "caliper_loop (length ?vs) ?vs ?t0 mb") simp_all
    next
      case (Inr sm)
      obtain s mb' where sm: "sm = (s, mb')" by (cases sm)
      with Inr l obtain t where t: "caliper_loop (length ?vs) ?vs ?t0 mb = Inr (t, mb')"
        by (cases "caliper_loop (length ?vs) ?vs ?t0 mb") auto
      from Inr sm fr have "fresh_box mb'" by (auto intro: caliper_loop_fresh)
      from fresh_extract_rect [OF this, of "globals s" ?vs "globals t"] Inr sm t
      show ?thesis by simp
    qed
    with starts(3) i2 show ?thesis
      unfolding rotatingCaliper_def by (simp add: loop_then_extract)
  qed
qed

text \<open>
  After \<open>computeAngles\<close> the axes of the box are not always a vector and its +90 degree
  turn: line 75 negates \<open>box.u[1]\<close> in place when side 3 is active and \<open>box.u[0]\<close> when
  side 2 is active. In the second round of the triangle \<open>[(0,0),(1,0),(2,1)]\<close> only side 3
  of the two is active: \<open>u[0]\<close> stays \<open>(1, 1)\<close> and the module's \<open>u1\<close>, which \<open>u[1]\<close>
  refers to, goes from \<open>(-1, 1)\<close> to \<open>(1, -1)\<close>. The next \<open>updateSupport\<close> that returns
  true rebuilds both axes.
\<close>

lemma computeAngles_negates_in_place:
  "ebind (initial \<lparr>caller_hull = [(0, 0), (1, 0), (2, 1)], perpE = (0, 0), u1 = (0, 0)\<rparr>)
     (\<lambda>(vertices, s0, mb0).
   ebind (caliper_loop 1 vertices s0 mb0) (\<lambda>(s1, mb1).
   ebind (computeAngles vertices s1) (\<lambda>(go, s2).
     Inr ((u (box s1), u1 (globals s1)), (u (box s2), u1 (globals s2)),
          caliper_invariant (globals s1) vertices (box s1),
          caliper_invariant (globals s2) vertices (box s2))))) =
   Inr (([Fresh (1, 1), Module_u1], (- 1, 1)), ([Fresh (1, 1), Module_u1], (1, - 1)),
        True, False)"
  by (simp add: run_defs vec_defs caliper_invariant_def recomputed_area_def
      cong: let_weak_cong ebind_weak_cong)

section \<open>The scenarios of the specification, run\<close>

text \<open>
  Claim C3, as the specification states it: on the square \<open>[(0,0),(2,0),(2,2),(0,2)]\<close>
  the result is width 2, height 2, centre (1,1) and angle 0. The run does not give
  that record: the baseline of the first box is the edge from the last vertex to the
  first, \<open>(0,2) \<rightarrow> (0,0)\<close>, which points down, and the first round of the loop ends the
  search (every support index advances onto a vertex already visited).
\<close>

theorem C3_counterexample:
  "map_sum id snd
     (rotatingCaliper \<lparr>caller_hull = [(0, 0), (2, 0), (2, 2), (0, 2)], perpE = (0, 0), u1 = (0, 0)\<rparr>)
     \<noteq> Inr \<lparr>width = 2, height = 2, center = (1, 1), angle = 0\<rparr>"
  by (simp add: run_defs vec_defs cong: let_weak_cong ebind_weak_cong)

text \<open>
  Claim C3, amended: on the square \<open>[(0,0),(2,0),(2,2),(0,2)]\<close> the result is width 2,
  height 2, centre (1,1) and angle \<open>- pi / 2\<close> (the same square, described from the
  edge \<open>(0,2) \<rightarrow> (0,0)\<close>), whatever the module-level vectors hold at the call.
\<close>

theorem C3_square:
  "rotatingCaliper \<lparr>caller_hull = [(0, 0), (2, 0), (2, 2), (0, 2)], perpE = p, u1 = q\<rparr> =
     Inr (\<lparr>caller_hull = [(0, 0), (2, 0), (2, 2), (0, 2)], perpE = (0, - 2), u1 = q\<rparr>,
          \<lparr>width = 2, height = 2, center = (1, 1), angle = - (pi / 2)\<rparr>)"
  by (simp add: run_defs vec_defs cong: let_weak_cong ebind_weak_cong)

text \<open>
  Claim C2 (containment: every input point lies within the returned rectangle, up to
  a small tolerance) fails on the triangle \<open>[(0,0),(1,0),(2,1)]\<close>, which is strictly
  convex and counter-clockwise. The returned rectangle has width 2, height 1, centre
  (3, 1/2) and angle 0: it spans \<open>2 \<le> x \<le> 4\<close>, and the input point (0,0) is outside
  it even with a tolerance of 1. In the second round only two sides are active, so
  \<open>computeAngles\<close> fills slots 0 and 1 of the buffer; slot 2 still holds the entry of
  the first round, \<open>sortAngles\<close> sorts it with the others, it is the smallest, and
  \<open>updateSupport\<close> advances the side it names. The box that results has area -2 and
  becomes the best box.
\<close>

theorem C2_triangle_not_contained:
  "map_sum id (\<lambda>(h, r). (r, in_rect 1 r (0, 0)))
     (rotatingCaliper \<lparr>caller_hull = [(0, 0), (1, 0), (2, 1)], perpE = (0, 0), u1 = (0, 0)\<rparr>) =
   Inr (\<lparr>width = 2, height = 1, center = (3, 1 / 2), angle = 0\<rparr>, False)"
  by (simp add: run_defs vec_defs in_rect_def cong: let_weak_cong ebind_weak_cong)

text \<open>
  Claim C7 (the selector returns an ordering of the candidates the angle computer
  produced) fails in the second round of the same triangle. \<open>computeAngles\<close> produces
  two candidates, in slots 0 and 1; the array \<open>sortAngles\<close> returns begins with slot 2,
  the entry the first round left in the buffer.
\<close>

theorem C7_stale_entry_sorted_first:
  "ebind (initial \<lparr>caller_hull = [(0, 0), (1, 0), (2, 1)], perpE = (0, 0), u1 = (0, 0)\<rparr>)
     (\<lambda>(vertices, s0, mb0).
   ebind (caliper_loop 1 vertices s0 mb0) (\<lambda>(s1, mb1).
   ebind (computeAngles vertices s1) (\<lambda>(go, s2).
     Inr (angleNum s2, angleInfo s2, sortAngles (angleInfo s2) (angleNum s2))))) =
   Inr (2,
        [Some \<lparr>sinThetaSqr = Fin (1 / 2), indexOfBox = 3\<rparr>,
         Some \<lparr>sinThetaSqr = Fin (9 / 10), indexOfBox = 1\<rparr>,
         Some \<lparr>sinThetaSqr = Fin (1 / 10), indexOfBox = 2\<rparr>,
         None],
        [2, 0, 1])"
  by (simp add: run_defs vec_defs cong: let_weak_cong ebind_weak_cong)

text \<open>
  Claim C1, as the specification states it (an input of fewer than 3 vertices is
  refused with a validation error, and no zero-area rectangle is returned silently),
  fails on the 1-point input \<open>[(0,0)]\<close>: the call returns a rectangle of width 0 and
  height 0 and raises nothing.
\<close>

theorem C1_counterexample:
  "rotatingCaliper \<lparr>caller_hull = [(0, 0)], perpE = (0, 0), u1 = (0, 0)\<rparr> =
     Inr (\<lparr>caller_hull = [(0, 0)], perpE = (0, 0), u1 = (0, 0)\<rparr>,
          \<lparr>width = 0, height = 0, center = (0, 0), angle = 0\<rparr>)"
  by (simp add: run_defs vec_defs cong: let_weak_cong ebind_weak_cong)

end
